theory Spec2Isabelle
  imports Main
begin

section \<open>Characters and strings as Python sees them\<close>

text \<open>
  Page texts are modelled as ASCII strings. The character classes are the ones Python's
  \<^verbatim>\<open>re\<close> and \<^verbatim>\<open>str\<close> use on ASCII text: \<^verbatim>\<open>\d\<close> is 0-9,
  \<^verbatim>\<open>\w\<close> is a letter, a digit or the underscore, and white space (for \<^verbatim>\<open>\s\<close> and for
  \<^verbatim>\<open>str.strip\<close>) is the characters of codes 9-13, 28-31 and 32.
\<close>

definition digits :: string where
  "digits = ''0123456789''"

definition ascii_uppercase :: string where
  "ascii_uppercase = ''ABCDEFGHIJKLMNOPQRSTUVWXYZ''"

definition ascii_lowercase :: string where
  "ascii_lowercase = ''abcdefghijklmnopqrstuvwxyz''"

definition whitespace :: string where
  "whitespace =
     [CHR 0x09, CHR 0x0A, CHR 0x0B, CHR 0x0C, CHR 0x0D, CHR 0x1C, CHR 0x1D, CHR 0x1E, CHR 0x1F,
      CHR 0x20]"

definition is_digit :: "char \<Rightarrow> bool" where
  "is_digit c = (c \<in> set digits)"

definition is_upper :: "char \<Rightarrow> bool" where
  "is_upper c = (c \<in> set ascii_uppercase)"

definition is_lower :: "char \<Rightarrow> bool" where
  "is_lower c = (c \<in> set ascii_lowercase)"

definition is_alpha :: "char \<Rightarrow> bool" where
  "is_alpha c = (is_upper c \<or> is_lower c)"

definition is_word :: "char \<Rightarrow> bool" where
  "is_word c = (is_alpha c \<or> is_digit c \<or> c = CHR ''_'')"

definition is_space :: "char \<Rightarrow> bool" where
  "is_space c = (c \<in> set whitespace)"

definition newline :: char where
  "newline = CHR 0x0A"

definition lower_char :: "char \<Rightarrow> char" where
  "lower_char c =
     (case map_of (zip ascii_uppercase ascii_lowercase) c of None \<Rightarrow> c | Some l \<Rightarrow> l)"

definition lower :: "string \<Rightarrow> string" where
  "lower s = map lower_char s"

text \<open>\<^verbatim>\<open>s.strip()\<close>: white space removed at both ends.\<close>

definition strip :: "string \<Rightarrow> string" where
  "strip s = rev (dropWhile is_space (rev (dropWhile is_space s)))"

text \<open>\<^verbatim>\<open>needle in hay\<close> on strings.\<close>

fun starts_with :: "string \<Rightarrow> string \<Rightarrow> bool" where
  "starts_with [] s = True"
| "starts_with (a # as) [] = False"
| "starts_with (a # as) (c # cs) = (a = c \<and> starts_with as cs)"

fun contains :: "string \<Rightarrow> string \<Rightarrow> bool" where
  "contains needle [] = (needle = [])"
| "contains needle (c # cs) = (starts_with needle (c # cs) \<or> contains needle cs)"

section \<open>Regular expressions and their backtracking matcher\<close>

text \<open>
  The patterns of \<^verbatim>\<open>HEADING_PATTERNS\<close> are written as syntax trees. \<open>Bol\<close> is
  \<^verbatim>\<open>^\<close> under \<^verbatim>\<open>re.MULTILINE\<close>, \<open>WordB\<close> is \<^verbatim>\<open>\b\<close>, \<open>Dot\<close> is \<^verbatim>\<open>.\<close>
  (any character but the newline), \<open>Cls\<close> is a bracket expression given by the
  characters it holds.
\<close>

datatype re =
    Eps
  | Lit char
  | Dot
  | Digit
  | Space
  | Cls string
  | Bol
  | WordB
  | Seq re re
  | Alt re re
  | Star re
  | Plus re

text \<open>
  A cursor is a position in the text: the character before it (none at the start of the
  text) and the text that remains.
\<close>

type_synonym cursor = "char option \<times> string"

definition step :: "(char \<Rightarrow> bool) \<Rightarrow> cursor \<Rightarrow> cursor list" where
  "step P cur = (case snd cur of [] \<Rightarrow> [] | c # cs \<Rightarrow> if P c then [(Some c, cs)] else [])"

definition at_bol :: "cursor \<Rightarrow> bool" where
  "at_bol cur = (case fst cur of None \<Rightarrow> True | Some p \<Rightarrow> p = newline)"

definition at_word_boundary :: "cursor \<Rightarrow> bool" where
  "at_word_boundary cur =
     ((case fst cur of None \<Rightarrow> False | Some p \<Rightarrow> is_word p) \<noteq>
      (case snd cur of [] \<Rightarrow> False | c # cs \<Rightarrow> is_word c))"

text \<open>
  A greedy repetition: one more round of the body first (only rounds that consume
  text), then stopping here. The fuel is the length of the remaining text, which bounds
  the number of rounds.
\<close>

fun star_iter :: "nat \<Rightarrow> (cursor \<Rightarrow> cursor list) \<Rightarrow> cursor \<Rightarrow> cursor list" where
  "star_iter 0 f cur = [cur]"
| "star_iter (Suc n) f cur =
     concat (map (star_iter n f)
       (filter (\<lambda>c'. length (snd c') < length (snd cur)) (f cur))) @ [cur]"

text \<open>
  \<open>rmatch ic r cur\<close> lists the cursors at which a match of \<open>r\<close> starting at \<open>cur\<close>
  can end, in the order in which a backtracking matcher tries them; the first one is the
  match Python reports. \<open>ic\<close> is \<^verbatim>\<open>re.IGNORECASE\<close>.
\<close>

primrec rmatch :: "bool \<Rightarrow> re \<Rightarrow> cursor \<Rightarrow> cursor list" where
  "rmatch ic Eps = (\<lambda>cur. [cur])"
| "rmatch ic (Lit a) =
     (\<lambda>cur. step (\<lambda>c. if ic then lower_char c = lower_char a else c = a) cur)"
| "rmatch ic Dot = (\<lambda>cur. step (\<lambda>c. c \<noteq> newline) cur)"
| "rmatch ic Digit = (\<lambda>cur. step is_digit cur)"
| "rmatch ic Space = (\<lambda>cur. step is_space cur)"
| "rmatch ic (Cls rs) =
     (\<lambda>cur. step (\<lambda>c. c \<in> set rs \<or> (ic \<and> lower_char c \<in> lower_char ` set rs)) cur)"
| "rmatch ic Bol = (\<lambda>cur. if at_bol cur then [cur] else [])"
| "rmatch ic WordB = (\<lambda>cur. if at_word_boundary cur then [cur] else [])"
| "rmatch ic (Seq r1 r2) = (\<lambda>cur. concat (map (rmatch ic r2) (rmatch ic r1 cur)))"
| "rmatch ic (Alt r1 r2) = (\<lambda>cur. rmatch ic r1 cur @ rmatch ic r2 cur)"
| "rmatch ic (Star r) = (\<lambda>cur. star_iter (length (snd cur)) (rmatch ic r) cur)"
| "rmatch ic (Plus r) =
     (\<lambda>cur. concat (map (\<lambda>c. star_iter (length (snd c)) (rmatch ic r) c) (rmatch ic r cur)))"

text \<open>
  \<^verbatim>\<open>pattern.search(text)\<close> followed by \<^verbatim>\<open>match.group(0)\<close>: the start positions are
  tried from left to right, and the matched span is what the first match consumed.
\<close>

fun search_from :: "bool \<Rightarrow> re \<Rightarrow> char option \<Rightarrow> string \<Rightarrow> string option" where
  "search_from ic r prev [] =
     (case rmatch ic r (prev, []) of [] \<Rightarrow> None | e # es \<Rightarrow> Some [])"
| "search_from ic r prev (c # cs) =
     (case rmatch ic r (prev, c # cs) of
        [] \<Rightarrow> search_from ic r (Some c) cs
      | e # es \<Rightarrow> Some (take (length (c # cs) - length (snd e)) (c # cs)))"

type_synonym pattern = "bool \<times> re"

definition search :: "pattern \<Rightarrow> string \<Rightarrow> string option" where
  "search p text = search_from (fst p) (snd p) None text"

text \<open>\<^verbatim>\<open>re.match(pattern, s)\<close>: a match at the start of the string only.\<close>

definition match_start :: "pattern \<Rightarrow> string \<Rightarrow> bool" where
  "match_start p s = (rmatch (fst p) (snd p) (None, s) \<noteq> [])"

section \<open>The heading patterns and \<^verbatim>\<open>extract_heading\<close>\<close>

definition lits :: "string \<Rightarrow> re" where
  "lits s = foldr (\<lambda>c r. Seq (Lit c) r) s Eps"

definition seqs :: "re list \<Rightarrow> re" where
  "seqs rs = foldr Seq rs Eps"

text \<open>\<^verbatim>\<open>\d+(?:\.\d+)*\<close>, the dotted numeral the three numbered patterns start with.\<close>

definition dotted_numeral :: re where
  "dotted_numeral = Seq (Plus Digit) (Star (Seq (Lit CHR ''.'') (Plus Digit)))"

definition pattern_chapter :: pattern where
  "pattern_chapter =
     (True, seqs [Bol, Alt (lits ''Chapter'') (lits ''CHAPTER''), WordB, Star Dot])"

definition pattern_section :: pattern where
  "pattern_section =
     (True, seqs [Bol, Alt (lits ''Section'') (lits ''SECTION''), WordB, Star Dot])"

definition pattern_numbered :: pattern where
  "pattern_numbered = (False, seqs [Bol, dotted_numeral, Plus Space, Plus Dot])"

definition pattern_numbered_alpha :: pattern where
  "pattern_numbered_alpha =
     (False, seqs [Bol, dotted_numeral, Plus Space,
        Cls (ascii_uppercase @ ascii_lowercase), Star Dot])"

definition pattern_link :: pattern where
  "pattern_link =
     (True, seqs [Bol, lits ''chapter'', Lit CHR ''.'', Plus Space,
        lits ''Here's'', Plus Space, lits ''the'', Plus Space,
        lits ''link:''])"

definition HEADING_PATTERNS :: "pattern list" where
  "HEADING_PATTERNS =
     [pattern_chapter, pattern_section, pattern_numbered, pattern_numbered_alpha,
      pattern_link]"

text \<open>The loop of \<^verbatim>\<open>extract_heading\<close>: the first pattern that matches decides.\<close>

fun first_match :: "pattern list \<Rightarrow> string \<Rightarrow> string option" where
  "first_match [] text = None"
| "first_match (p # ps) text =
     (case search p text of Some m \<Rightarrow> Some m | None \<Rightarrow> first_match ps text)"

definition extract_heading :: "string \<Rightarrow> string option" where
  "extract_heading text = first_match HEADING_PATTERNS text"

section \<open>Documents and their metadata\<close>

text \<open>
  A LangChain \<^verbatim>\<open>Document\<close>: the text and the metadata dictionary, kept as the list of
  its items in insertion order and read with \<open>map_of\<close>.
\<close>

datatype meta_val = MStr string | MInt int | MNone

record document =
  page_content :: string
  metadata :: "(string \<times> meta_val) list"

definition meta_get :: "document \<Rightarrow> string \<Rightarrow> meta_val option" where
  "meta_get d k = map_of (metadata d) k"

text \<open>\<^verbatim>\<open>str(n)\<close> on integers, and the text an f-string puts for a metadata value.\<close>

definition digit_char :: "nat \<Rightarrow> char" where
  "digit_char d = digits ! d"

fun str_nat :: "nat \<Rightarrow> string" where
  "str_nat n = (if n < 10 then [digit_char n] else str_nat (n div 10) @ [digit_char (n mod 10)])"

declare str_nat.simps [simp del]

definition str_int :: "int \<Rightarrow> string" where
  "str_int i = (if i < 0 then CHR ''-'' # str_nat (nat (- i)) else str_nat (nat i))"

fun str_val :: "meta_val \<Rightarrow> string" where
  "str_val (MStr s) = s"
| "str_val (MInt i) = str_int i"
| "str_val MNone = ''None''"

text \<open>\<^verbatim>\<open>os.path.basename\<close> and the root part of \<^verbatim>\<open>os.path.splitext\<close> (on a file name).\<close>

definition basename :: "string \<Rightarrow> string" where
  "basename p = rev (takeWhile (\<lambda>c. c \<noteq> CHR ''/'') (rev p))"

definition splitext_root :: "string \<Rightarrow> string" where
  "splitext_root n =
     (if CHR ''.'' \<in> set n then
        (let root = rev (tl (dropWhile (\<lambda>c. c \<noteq> CHR ''.'') (rev n)))
         in if (\<exists>c \<in> set root. c \<noteq> CHR ''.'') then root else n)
      else n)"

section \<open>The libraries \<^verbatim>\<open>ingest_pdf_to_vectordb\<close> calls\<close>

text \<open>
  The PDF loader, the text splitter, the two index builders and the random identifiers
  are library code. They are parameters of the model:
  \<^item> \<open>load_pdf path\<close> is \<^verbatim>\<open>PyPDFLoader(path).load()\<close>, \<open>None\<close> when it raises;
  \<^item> \<open>split_text\<close> is \<^verbatim>\<open>text_splitter.split_text\<close> of the splitter configured with
    \<^verbatim>\<open>chunk_size=1000, chunk_overlap=200\<close>;
  \<^item> \<open>faiss_builds docs\<close> and \<open>tfidf_builds docs\<close> say whether
    \<^verbatim>\<open>FAISS.from_documents\<close> and \<^verbatim>\<open>TFIDFRetriever.from_documents\<close> return (an index that
    holds exactly \<open>docs\<close>) or raise;
  \<^item> \<open>uuid4_hex n\<close> is the value of \<^verbatim>\<open>uuid4().hex\<close> at its \<open>n\<close>-th call of the run.
\<close>

record env =
  load_pdf :: "string \<Rightarrow> document list option"
  split_text :: "string \<Rightarrow> string list"
  faiss_builds :: "document list \<Rightarrow> bool"
  tfidf_builds :: "document list \<Rightarrow> bool"
  uuid4_hex :: "nat \<Rightarrow> string"

text \<open>
  What is known of \<^verbatim>\<open>FAISS.from_documents\<close> (line 108), library code as well: it embeds
  the texts of the documents and sizes the index by the first vector
  (\<^verbatim>\<open>len(embeddings[0])\<close>), so that it raises when it is given no document at all.
  \<open>embeds docs\<close> says whether the embedding of the texts returns.
\<close>

definition faiss_from_documents_builds :: "(document list \<Rightarrow> bool) \<Rightarrow> document list \<Rightarrow> bool" where
  "faiss_from_documents_builds embeds docs = (docs \<noteq> [] \<and> embeds docs)"

text \<open>
  \<^verbatim>\<open>text_splitter.split_documents(doc)\<close>: every piece of a document's text becomes a
  document with a copy of that document's metadata.
\<close>

definition split_documents :: "env \<Rightarrow> document list \<Rightarrow> document list" where
  "split_documents e docs =
     concat (map (\<lambda>d. map (\<lambda>t. \<lparr>page_content = t, metadata = metadata d\<rparr>)
                          (split_text e (page_content d))) docs)"

section \<open>The page loop of \<^verbatim>\<open>ingest_pdf_to_vectordb\<close>\<close>

text \<open>\<^verbatim>\<open>re.match(r'^\d+(?:\.\d+)*\s+', heading)\<close>.\<close>

definition numbered_prefix :: pattern where
  "numbered_prefix = (False, seqs [Bol, dotted_numeral, Plus Space])"

text \<open>
  The classification of a page's heading (lines 70-81): the chapter and the section of
  the fragment and the new value of \<^verbatim>\<open>current_chapter\<close>.
\<close>

definition tag_heading ::
  "string option \<Rightarrow> string option \<Rightarrow> string option \<times> string option \<times> string option" where
  "tag_heading heading current_chapter =
     (case heading of
        None \<Rightarrow> (None, None, current_chapter)
      | Some h \<Rightarrow>
          if h = [] then (None, None, current_chapter)
          else if contains ''chapter'' (lower h) then (Some h, None, Some h)
          else if contains ''section'' (lower h) then (None, Some h, current_chapter)
          else if match_start numbered_prefix h then (None, Some h, current_chapter)
          else (None, None, current_chapter))"

text \<open>\<^verbatim>\<open>x or ""\<close>.\<close>

definition or_empty :: "string option \<Rightarrow> string" where
  "or_empty x = (case x of None \<Rightarrow> [] | Some s \<Rightarrow> s)"

text \<open>What a page fixes for all its chunks.\<close>

record chunk_ctx =
  ctx_book_title :: string
  ctx_chapter :: "string option"
  ctx_section :: "string option"
  ctx_page_num :: meta_val
  ctx_source :: string
  ctx_frag_idx :: nat

definition chunk_id :: "chunk_ctx \<Rightarrow> nat \<Rightarrow> string \<Rightarrow> string" where
  "chunk_id c sidx hex =
     ctx_source c @ ''_p'' @ str_val (ctx_page_num c) @ ''_f'' @ str_nat (ctx_frag_idx c)
       @ ''_s'' @ str_nat sidx @ ''_'' @ take 8 hex"

definition make_chunk :: "chunk_ctx \<Rightarrow> nat \<Rightarrow> string \<Rightarrow> string \<Rightarrow> document" where
  "make_chunk c sidx hex chunk_text =
     \<lparr>page_content = chunk_text,
      metadata =
        [(''book_title'', MStr (ctx_book_title c)),
         (''chapter'', MStr (or_empty (ctx_chapter c))),
         (''section'', MStr (or_empty (ctx_section c))),
         (''page_number'', ctx_page_num c),
         (''source'', MStr (ctx_source c)),
         (''chunk_id'', MStr (chunk_id c sidx hex))]\<rparr>"

text \<open>
  The loop over \<^verbatim>\<open>enumerate(small_chunks)\<close> (lines 91-104): a piece that is empty after
  \<^verbatim>\<open>strip()\<close> is skipped, and keeps its index. \<open>n\<close> counts the calls of \<^verbatim>\<open>uuid4\<close>.
\<close>

fun emit_chunks ::
  "env \<Rightarrow> chunk_ctx \<Rightarrow> nat \<Rightarrow> nat \<Rightarrow> string list \<Rightarrow> document list \<times> nat" where
  "emit_chunks e c sidx n [] = ([], n)"
| "emit_chunks e c sidx n (t # ts) =
     (if strip t = [] then emit_chunks e c (Suc sidx) n ts
      else (let (ds, n') = emit_chunks e c (Suc sidx) (Suc n) ts
            in (make_chunk c sidx (uuid4_hex e n) (strip t) # ds, n')))"

text \<open>
  The body of the loop over the pages (lines 63-104). The state is
  \<^verbatim>\<open>current_chapter\<close> and the number of identifiers drawn so far; the result is the
  chunks appended to \<^verbatim>\<open>chunk_docs\<close> for this page and the new state.
\<close>

definition page_num_of :: "document \<Rightarrow> meta_val" where
  "page_num_of d = (case meta_get d ''page'' of None \<Rightarrow> MNone | Some v \<Rightarrow> v)"

definition small_chunks :: "env \<Rightarrow> string \<Rightarrow> string list" where
  "small_chunks e frag_text =
     (if length frag_text > 1000 then split_text e frag_text else [frag_text])"

definition process_page ::
  "env \<Rightarrow> string \<Rightarrow> string \<Rightarrow> string option \<times> nat \<Rightarrow> document
     \<Rightarrow> document list \<times> (string option \<times> nat)" where
  "process_page e pdf_path collection_name st page_doc =
     (let page_text = page_content page_doc;
          heading = extract_heading page_text;
          (chapter, section, current_chapter) = tag_heading heading (fst st);
          chapter = (case chapter of None \<Rightarrow> current_chapter | Some h \<Rightarrow> Some h);
          c = \<lparr>ctx_book_title = collection_name, ctx_chapter = chapter,
               ctx_section = section, ctx_page_num = page_num_of page_doc,
               ctx_source = basename pdf_path, ctx_frag_idx = 0\<rparr>;
          (ds, n) = emit_chunks e c 0 (snd st) (small_chunks e page_text)
      in (ds, (current_chapter, n)))"

fun process_pages ::
  "env \<Rightarrow> string \<Rightarrow> string \<Rightarrow> string option \<times> nat \<Rightarrow> document list
     \<Rightarrow> document list list" where
  "process_pages e pdf_path collection_name st [] = []"
| "process_pages e pdf_path collection_name st (d # ds) =
     (let (out, st') = process_page e pdf_path collection_name st d
      in out # process_pages e pdf_path collection_name st' ds)"

text \<open>\<^verbatim>\<open>chunk_docs\<close> after the loop: the chunks of all pages, in page order.\<close>

definition chunk_docs_of :: "env \<Rightarrow> string \<Rightarrow> string \<Rightarrow> document list \<Rightarrow> document list" where
  "chunk_docs_of e pdf_path collection_name doc =
     concat (process_pages e pdf_path collection_name (None, 0) doc)"

section \<open>\<^verbatim>\<open>ingest_pdf_to_vectordb\<close>\<close>

text \<open>
  The hybrid retriever is the ensemble of the dense and the lexical retriever (weights
  0.6 and 0.4); what matters here is the documents each of them holds. The disk maps the
  path of a persisted FAISS store to the documents of that store.

  The function catches no exception, so that it fails where a library call raises, with
  the exception of that call. An error names the call that raised:
  \<^item> \<open>LoadError\<close>: \<^verbatim>\<open>PyPDFLoader(pdf_path).load()\<close> (lines 53-54), on a path that does
    not exist or a file that is not a PDF; this is the load error of the specification;
  \<^item> \<open>EmbeddingError\<close>: \<^verbatim>\<open>FAISS.from_documents\<close> (line 108), before anything is saved;
  \<^item> \<open>LexicalIndexError\<close>: \<^verbatim>\<open>TFIDFRetriever.from_documents\<close> (line 117), after the
    dense index was saved (line 111).
\<close>

datatype error = LoadError | EmbeddingError | LexicalIndexError

record retriever =
  dense_docs :: "document list"
  lexical_docs :: "document list"

type_synonym disk = "string \<Rightarrow> document list option"

definition default_collection_name :: "string \<Rightarrow> string option \<Rightarrow> string" where
  "default_collection_name pdf_path collection_name =
     (case collection_name of None \<Rightarrow> splitext_root (basename pdf_path) | Some n \<Rightarrow> n)"

definition faiss_index_path :: "string \<Rightarrow> string" where
  "faiss_index_path collection_name = ''vector_stores/'' @ collection_name @ ''_faiss''"

definition ingest_pdf_to_vectordb ::
  "env \<Rightarrow> string \<Rightarrow> string option \<Rightarrow> disk
     \<Rightarrow> (error + retriever \<times> document list \<times> document list) \<times> disk" where
  "ingest_pdf_to_vectordb e pdf_path collection_name dk =
     (let cname = default_collection_name pdf_path collection_name in
      case load_pdf e pdf_path of
        None \<Rightarrow> (Inl LoadError, dk)
      | Some doc \<Rightarrow>
          (let chunks = split_documents e doc;
               chunk_docs = chunk_docs_of e pdf_path cname doc
           in if \<not> faiss_builds e chunks then (Inl EmbeddingError, dk)
              else (let vectorstore = chunks;
                        dk' = dk(faiss_index_path cname \<mapsto> vectorstore)
                    in if \<not> tfidf_builds e chunks then (Inl LexicalIndexError, dk')
                       else (Inr (\<lparr>dense_docs = vectorstore, lexical_docs = chunks\<rparr>,
                                  vectorstore, chunk_docs), dk'))))"

section \<open>The specification's notions\<close>

text \<open>
  The classification of section 4.3 of the specification, written after its words: a
  heading is a chapter heading when it contains "chapter" (case-insensitive); it is a
  section heading when it is not a chapter heading and contains "section" or starts as a
  numbered heading.
\<close>


definition is_chapter_heading :: "string option \<Rightarrow> bool" where
  "is_chapter_heading heading =
     (case heading of None \<Rightarrow> False | Some h \<Rightarrow> contains ''chapter'' (lower h))"

definition page_heading :: "document \<Rightarrow> string option" where
  "page_heading d = extract_heading (page_content d)"

definition most_recent_chapter :: "string option \<Rightarrow> document list \<Rightarrow> string" where
  "most_recent_chapter init pages =
     (case filter is_chapter_heading (rev (map page_heading pages)) of
        [] \<Rightarrow> or_empty init
      | h # hs \<Rightarrow> or_empty h)"

definition section_of_heading :: "string option \<Rightarrow> string" where
  "section_of_heading heading =
     (case heading of
        None \<Rightarrow> []
      | Some h \<Rightarrow>
          if contains ''chapter'' (lower h) then []
          else if contains ''section'' (lower h) \<or> match_start numbered_prefix h then h
          else [])"


text \<open>The value of \<^verbatim>\<open>current_chapter\<close> after a page.\<close>

definition next_chapter :: "string option \<Rightarrow> document \<Rightarrow> string option" where
  "next_chapter cur pg = (if is_chapter_heading (page_heading pg) then page_heading pg else cur)"



section \<open>Sample documents\<close>

text \<open>
  Short documents on which the theorems are instantiated. \<open>loader_meta\<close> is the
  metadata \<^verbatim>\<open>PyPDFLoader\<close> gives a page (the path and the page index);
  \<open>short_split\<close> is what the splitter returns for a text that fits one chunk, and all
  sample pages do. \<open>tagged\<close> writes a chunk with its six metadata items.
\<close>

definition loader_meta :: "string \<Rightarrow> int \<Rightarrow> (string \<times> meta_val) list" where
  "loader_meta path i = [(''source'', MStr path), (''page'', MInt i)]"

definition chapter_doc :: "document list" where
  "chapter_doc =
     [\<lparr>page_content = ''Chapter 1\<newline>Intro'', metadata = loader_meta ''temp/book.pdf'' 0\<rparr>,
      \<lparr>page_content = ''More text'', metadata = loader_meta ''temp/book.pdf'' 1\<rparr>,
      \<lparr>page_content = ''Chapter 2\<newline>Next'', metadata = loader_meta ''temp/book.pdf'' 2\<rparr>]"

definition mixed_doc :: "document list" where
  "mixed_doc =
     [\<lparr>page_content = ''Section 2 of Chapter 1'', metadata = loader_meta ''temp/notes.pdf'' 0\<rparr>,
      \<lparr>page_content = ''1.2 Scope'', metadata = loader_meta ''temp/notes.pdf'' 1\<rparr>,
      \<lparr>page_content = ''plain'', metadata = loader_meta ''temp/notes.pdf'' 2\<rparr>,
      \<lparr>page_content = '' \<newline>  '', metadata = loader_meta ''temp/notes.pdf'' 3\<rparr>]"

definition short_split :: "string \<Rightarrow> string list" where
  "short_split t = (if strip t = [] then [] else [strip t])"

definition sample_env :: env where
  "sample_env =
     \<lparr>load_pdf = (\<lambda>p. if p = ''temp/book.pdf'' then Some chapter_doc
                        else if p = ''temp/notes.pdf'' then Some mixed_doc
                        else if p = ''temp/empty.pdf'' then Some [] else None),
      split_text = short_split,
      faiss_builds = faiss_from_documents_builds (\<lambda>ds. True),
      tfidf_builds = (\<lambda>ds. ds \<noteq> []),
      uuid4_hex = (\<lambda>n. ''3f2a9c41d07b4e6f8a15c2d9e0b7a364'')\<rparr>"

definition tagged :: "string \<Rightarrow> string \<Rightarrow> string \<Rightarrow> string \<Rightarrow> string \<Rightarrow> int \<Rightarrow> string \<Rightarrow> document" where
  "tagged text title chapter section src page cid =
     \<lparr>page_content = text,
      metadata = [(''book_title'', MStr title), (''chapter'', MStr chapter),
        (''section'', MStr section), (''page_number'', MInt page), (''source'', MStr src),
        (''chunk_id'', MStr cid)]\<rparr>"






section \<open>The text splitter of the library\<close>

text \<open>
  \<^verbatim>\<open>RecursiveCharacterTextSplitter(chunk_size=1000, chunk_overlap=200)\<close> (line 57) is
  library code, not code of the repository. What follows is a model of its
  \<^verbatim>\<open>split_text\<close>, written after the library's own functions and with the defaults the
  call leaves in place: separators \<^verbatim>\<open>["\n\n", "\n", " ", ""]\<close>, the separator kept at
  the start of the piece that follows it, white space stripped from every chunk, lengths
  counted in characters. It is used where a statement is about the pieces themselves;
  everything else holds for any \<open>split_text\<close>.
\<close>

definition chunk_size :: nat where
  "chunk_size = 1000"

definition chunk_overlap :: nat where
  "chunk_overlap = 200"

text \<open>
  \<^verbatim>\<open>re.split("(sep)", text)\<close> with each separator joined to the piece after it:
  \<open>cur\<close> is the piece being read, \<open>k\<close> the characters of a separator just found that
  are still to be passed over.
\<close>

fun split_keep :: "string \<Rightarrow> nat \<Rightarrow> string \<Rightarrow> string \<Rightarrow> string list" where
  "split_keep sep k cur [] = [cur]"
| "split_keep sep k cur (c # cs) =
     (if k > 0 then split_keep sep (k - 1) cur cs
      else if starts_with sep (c # cs) then cur # split_keep sep (length sep - 1) sep cs
      else split_keep sep 0 (cur @ [c]) cs)"

text \<open>\<^verbatim>\<open>_split_text_with_regex\<close>: the empty separator splits into characters.\<close>

definition split_text_with_regex :: "string \<Rightarrow> string \<Rightarrow> string list" where
  "split_text_with_regex text separator =
     filter (\<lambda>s. s \<noteq> [])
       (if separator \<noteq> [] then split_keep separator 0 [] text else map (\<lambda>c. [c]) text)"

text \<open>\<^verbatim>\<open>_join_docs\<close>: the joined and stripped text, or nothing when it is empty.\<close>

definition join_docs :: "string list \<Rightarrow> string \<Rightarrow> string option" where
  "join_docs docs separator =
     (let text = strip (concat (case docs of [] \<Rightarrow> [] | d # ds \<Rightarrow> d # map (\<lambda>x. separator @ x) ds))
      in if text = [] then None else Some text)"

text \<open>
  The inner loop of \<^verbatim>\<open>_merge_splits\<close>, which drops pieces from the front of
  \<^verbatim>\<open>current_doc\<close> while more than \<^verbatim>\<open>chunk_overlap\<close> characters are kept or the next
  piece does not fit. \<open>total_len\<close> is the length of \<^verbatim>\<open>current_doc\<close> when joined, so it
  is 0 when \<^verbatim>\<open>current_doc\<close> is empty and the loop stops there.
\<close>

fun shrink :: "nat \<Rightarrow> nat \<Rightarrow> string list \<Rightarrow> nat \<Rightarrow> string list \<times> nat" where
  "shrink len separator_len [] total_len = ([], total_len)"
| "shrink len separator_len (x # xs) total_len =
     (if total_len > chunk_overlap
         \<or> (total_len + len + (if length (x # xs) > 0 then separator_len else 0) > chunk_size \<and> total_len > 0)
      then shrink len separator_len xs
             (total_len - (length x + (if length (x # xs) > 1 then separator_len else 0)))
      else (x # xs, total_len))"

text \<open>\<^verbatim>\<open>_merge_splits\<close>: the loop over the pieces, and the last chunk after it.\<close>

fun merge_loop :: "string \<Rightarrow> string list \<Rightarrow> nat \<Rightarrow> string list \<Rightarrow> string list" where
  "merge_loop separator current_doc total_len [] =
     (case join_docs current_doc separator of None \<Rightarrow> [] | Some doc \<Rightarrow> [doc])"
| "merge_loop separator current_doc total_len (d # ds) =
     (let len = length d; separator_len = length separator in
      if total_len + len + (if length current_doc > 0 then separator_len else 0) > chunk_size
      then (if length current_doc > 0
            then (let (cur, tl') = shrink len separator_len current_doc total_len in
                  (case join_docs current_doc separator of None \<Rightarrow> [] | Some doc \<Rightarrow> [doc])
                  @ merge_loop separator (cur @ [d])
                      (tl' + len + (if length (cur @ [d]) > 1 then separator_len else 0)) ds)
            else merge_loop separator (current_doc @ [d])
                   (total_len + len + (if length (current_doc @ [d]) > 1 then separator_len else 0)) ds)
      else merge_loop separator (current_doc @ [d])
             (total_len + len + (if length (current_doc @ [d]) > 1 then separator_len else 0)) ds)"

definition merge_splits :: "string list \<Rightarrow> string \<Rightarrow> string list" where
  "merge_splits splits separator = merge_loop separator [] 0 splits"

text \<open>
  The second half of \<^verbatim>\<open>_split_text\<close>: pieces shorter than \<^verbatim>\<open>chunk_size\<close> are
  collected in \<open>good\<close> and merged (with the empty separator, since the separators are
  kept in the pieces); a longer piece is handed to \<open>deeper\<close>, which splits it by the
  remaining separators, or keeps it as it is when none remains.
\<close>

fun gather :: "(string \<Rightarrow> string list) \<Rightarrow> string list \<Rightarrow> string list \<Rightarrow> string list" where
  "gather deeper good [] = (if good \<noteq> [] then merge_splits good [] else [])"
| "gather deeper good (s # ss) =
     (if length s < chunk_size then gather deeper (good @ [s]) ss
      else (if good \<noteq> [] then merge_splits good [] else []) @ deeper s @ gather deeper [] ss)"

text \<open>
  \<^verbatim>\<open>_split_text(text, separators)\<close>: the first separator that is empty or occurs in
  the text is used, the last one when none does; the separators after it are left for
  the pieces that are still too long.
\<close>

fun recursive_split :: "string list \<Rightarrow> string \<Rightarrow> string list" where
  "recursive_split [] text = []"
| "recursive_split [s] text = gather (\<lambda>p. [p]) [] (split_text_with_regex text s)"
| "recursive_split (s # s' # ss) text =
     (if s = [] then gather (\<lambda>p. [p]) [] (split_text_with_regex text s)
      else if contains s text then gather (recursive_split (s' # ss)) [] (split_text_with_regex text s)
      else recursive_split (s' # ss) text)"

definition separators :: "string list" where
  "separators = [[newline, newline], [newline], '' '', []]"

definition rcts_split_text :: "string \<Rightarrow> string list" where
  "rcts_split_text text = recursive_split separators text"

text \<open>
  Two texts overlap by \<open>n\<close> characters when the last \<open>n\<close> characters of the first are
  the first \<open>n\<close> characters of the second.
\<close>

definition overlap_by :: "nat \<Rightarrow> string \<Rightarrow> string \<Rightarrow> bool" where
  "overlap_by n x y = (n \<le> length x \<and> n \<le> length y \<and> drop (length x - n) x = take n y)"

text \<open>
  A document whose first page is two words of 600 letters, 1201 characters in all, read
  with the library's splitter.
\<close>

definition long_text :: string where
  "long_text = replicate 600 CHR ''a'' @ '' '' @ replicate 600 CHR ''b''"

definition long_doc :: "document list" where
  "long_doc =
     [\<lparr>page_content = long_text, metadata = loader_meta ''temp/long.pdf'' 0\<rparr>,
      \<lparr>page_content = ''Tail'', metadata = loader_meta ''temp/long.pdf'' 1\<rparr>]"

text \<open>A document of one page that holds 1001 blanks.\<close>

definition blank_doc :: "document list" where
  "blank_doc =
     [\<lparr>page_content = replicate 1001 CHR '' '', metadata = loader_meta ''temp/blank.pdf'' 0\<rparr>]"

definition lib_env :: env where
  "lib_env = sample_env\<lparr>split_text := rcts_split_text\<rparr>"

text \<open>
  The overlapping windows of the specification's chunker, written after its words:
  windows of \<open>chunk_size\<close> characters, each starting \<open>chunk_size - chunk_overlap\<close>
  characters after the one before, so that consecutive windows share \<open>chunk_overlap\<close>
  characters; the last window ends where the text ends. A text of at most \<open>chunk_size\<close>
  characters is one window.
\<close>

function windows :: "string \<Rightarrow> string list" where
  "windows t =
     (if length t \<le> chunk_size then (if t = [] then [] else [t])
      else take chunk_size t # windows (drop (chunk_size - chunk_overlap) t))"
  by pat_completeness auto
termination
  by (relation "measure length") (auto simp: chunk_size_def chunk_overlap_def)

declare windows.simps [simp del]

text \<open>
  A document of one page of 1800 letters with no white space: nothing but a hard cut can
  split it.
\<close>

definition packed_text :: string where
  "packed_text = replicate 900 CHR ''a'' @ replicate 900 CHR ''b''"

definition packed_doc :: "document list" where
  "packed_doc = [\<lparr>page_content = packed_text, metadata = loader_meta ''temp/packed.pdf'' 0\<rparr>]"

section \<open>Properties of the page loop\<close>

lemma contains_nonempty: "contains (a # as) s \<Longrightarrow> s \<noteq> []"
  by (cases s) auto

lemma emit_chunks_mem:
  "d \<in> set (fst (emit_chunks e c sidx n ts)) \<Longrightarrow>
     \<exists>s hex t. d = make_chunk c s hex (strip t) \<and> t \<in> set ts \<and> strip t \<noteq> []"
proof (induction ts arbitrary: sidx n)
  case Nil
  then show ?case by simp
next
  case (Cons t ts)
  show ?case
  proof (cases "strip t = []")
    case True
    with Cons.prems have "d \<in> set (fst (emit_chunks e c (Suc sidx) n ts))" by simp
    from Cons.IH [OF this] show ?thesis by auto
  next
    case False
    obtain ds n' where r: "emit_chunks e c (Suc sidx) (Suc n) ts = (ds, n')"
      by (cases "emit_chunks e c (Suc sidx) (Suc n) ts")
    with False Cons.prems have "d = make_chunk c sidx (uuid4_hex e n) (strip t) \<or> d \<in> set ds"
      by simp
    then show ?thesis
    proof
      assume "d = make_chunk c sidx (uuid4_hex e n) (strip t)"
      with False show ?thesis by auto
    next
      assume "d \<in> set ds"
      with r have "d \<in> set (fst (emit_chunks e c (Suc sidx) (Suc n) ts))" by simp
      from Cons.IH [OF this] show ?thesis by auto
    qed
  qed
qed

lemma make_chunk_chapter:
  "meta_get (make_chunk c s hex t) ''chapter'' = Some (MStr (or_empty (ctx_chapter c)))"
  by (simp add: make_chunk_def meta_get_def)

lemma make_chunk_section:
  "meta_get (make_chunk c s hex t) ''section'' = Some (MStr (or_empty (ctx_section c)))"
  by (simp add: make_chunk_def meta_get_def)

lemma make_chunk_content: "page_content (make_chunk c s hex t) = t"
  by (simp add: make_chunk_def)


lemma tag_heading_cases:
  "tag_heading heading cur =
     (if is_chapter_heading heading then (heading, None, heading)
      else if section_of_heading heading \<noteq> [] then (None, heading, cur)
      else (None, None, cur))"
  by (cases heading)
     (auto simp: tag_heading_def is_chapter_heading_def section_of_heading_def lower_def)

lemma process_page_state:
  "fst (snd (process_page e p cn st pg)) = next_chapter (fst st) pg"
  by (simp add: process_page_def Let_def tag_heading_cases next_chapter_def page_heading_def
           split: prod.splits)

lemma process_page_chunk:
  assumes "d \<in> set (fst (process_page e p cn st pg))"
  shows "meta_get d ''chapter'' = Some (MStr (or_empty (next_chapter (fst st) pg)))
       \<and> meta_get d ''section'' = Some (MStr (section_of_heading (page_heading pg)))
       \<and> page_content d \<noteq> []"
proof -
  let ?h = "page_heading pg"
  obtain ch se cur' where t: "tag_heading ?h (fst st) = (ch, se, cur')"
    by (cases "tag_heading ?h (fst st)")
  let ?c = "\<lparr>ctx_book_title = cn,
            ctx_chapter = (case ch of None \<Rightarrow> cur' | Some h \<Rightarrow> Some h),
            ctx_section = se, ctx_page_num = page_num_of pg,
            ctx_source = basename p, ctx_frag_idx = 0\<rparr>"
  from assms t have "d \<in> set (fst (emit_chunks e ?c 0 (snd st) (small_chunks e (page_content pg))))"
    by (simp add: process_page_def Let_def page_heading_def split: prod.splits)
  from emit_chunks_mem [OF this] obtain s hex t' where
    d: "d = make_chunk ?c s hex (strip t')" and ne: "strip t' \<noteq> []" by blast
  from t have "or_empty (case ch of None \<Rightarrow> cur' | Some h \<Rightarrow> Some h)
                 = or_empty (next_chapter (fst st) pg)"
    and "or_empty se = section_of_heading ?h"
    by (auto simp: tag_heading_cases next_chapter_def or_empty_def is_chapter_heading_def
             section_of_heading_def split: if_splits option.splits)
  with d ne show ?thesis
    by (simp add: make_chunk_chapter make_chunk_section make_chunk_content)
qed

lemma most_recent_chapter_Cons:
  "most_recent_chapter cur (pg # ps) = most_recent_chapter (next_chapter cur pg) ps"
  by (auto simp: most_recent_chapter_def next_chapter_def or_empty_def
           split: list.splits option.splits)

lemma process_pages_length: "length (process_pages e p cn st doc) = length doc"
  by (induction doc arbitrary: st) (auto split: prod.splits)

lemma process_pages_nth:
  "i < length doc \<Longrightarrow>
     \<exists>n. process_pages e p cn st doc ! i =
          fst (process_page e p cn (fold (\<lambda>pg cur. next_chapter cur pg) (take i doc) (fst st), n) (doc ! i))"
proof (induction doc arbitrary: st i)
  case Nil
  then show ?case by simp
next
  case (Cons pg ps)
  obtain out st' where r: "process_page e p cn st pg = (out, st')"
    by (cases "process_page e p cn st pg")
  show ?case
  proof (cases i)
    case 0
    with r show ?thesis
      by (auto intro!: exI [of _ "snd st"])
  next
    case (Suc j)
    with Cons.prems have "j < length ps" by simp
    from Cons.IH [OF this, of st'] obtain n where
      "process_pages e p cn st' ps ! j =
         fst (process_page e p cn (fold (\<lambda>pg cur. next_chapter cur pg) (take j ps) (fst st'), n) (ps ! j))"
      by blast
    moreover from r have "fst st' = next_chapter (fst st) pg"
      using process_page_state [of e p cn st pg] by simp
    ultimately show ?thesis using Suc r by auto
  qed
qed

lemma most_recent_chapter_fold:
  "most_recent_chapter cur (ps @ [pg]) =
     or_empty (next_chapter (fold (\<lambda>pg cur. next_chapter cur pg) ps cur) pg)"
proof (induction ps arbitrary: cur)
  case Nil
  show ?case
    by (auto simp: most_recent_chapter_def next_chapter_def or_empty_def split: option.splits)
next
  case (Cons a ps)
  then show ?case by (simp add: most_recent_chapter_Cons)
qed


section \<open>The sample runs\<close>

lemma chapter_doc_run:
  "process_pages sample_env ''temp/book.pdf'' ''book'' (None, 0) chapter_doc =
     [[tagged ''Chapter 1\<newline>Intro'' ''book'' ''Chapter 1'' [] ''book.pdf'' 0 ''book.pdf_p0_f0_s0_3f2a9c41''],
      [tagged ''More text'' ''book'' ''Chapter 1'' [] ''book.pdf'' 1 ''book.pdf_p1_f0_s0_3f2a9c41''],
      [tagged ''Chapter 2\<newline>Next'' ''book'' ''Chapter 2'' [] ''book.pdf'' 2 ''book.pdf_p2_f0_s0_3f2a9c41'']]"
  by code_simp

lemma chapter_doc_headings:
  "map page_heading chapter_doc = [Some ''Chapter 1'', None, Some ''Chapter 2'']"
  by code_simp

lemma mixed_doc_run:
  "process_pages sample_env ''temp/notes.pdf'' ''notes'' (None, 0) mixed_doc =
     [[tagged ''Section 2 of Chapter 1'' ''notes'' ''Section 2 of Chapter 1'' [] ''notes.pdf'' 0
         ''notes.pdf_p0_f0_s0_3f2a9c41''],
      [tagged ''1.2 Scope'' ''notes'' ''Section 2 of Chapter 1'' ''1.2 Scope'' ''notes.pdf'' 1
         ''notes.pdf_p1_f0_s0_3f2a9c41''],
      [tagged ''plain'' ''notes'' ''Section 2 of Chapter 1'' [] ''notes.pdf'' 2
         ''notes.pdf_p2_f0_s0_3f2a9c41''],
      []]"
  by code_simp

lemma mixed_doc_headings:
  "map page_heading mixed_doc = [Some ''Section 2 of Chapter 1'', Some ''1.2 Scope'', None, None]"
  by code_simp

section \<open>Chapter and section tags\<close>

lemma page_chunk_at:
  assumes "i < length doc" and "d \<in> set (process_pages e p cn st doc ! i)"
  shows "meta_get d ''chapter'' = Some (MStr (most_recent_chapter (fst st) (take (Suc i) doc)))
       \<and> meta_get d ''section'' = Some (MStr (section_of_heading (page_heading (doc ! i))))
       \<and> page_content d \<noteq> []"
proof -
  from process_pages_nth [OF assms(1), of e p cn st] obtain n where
    "process_pages e p cn st doc ! i =
       fst (process_page e p cn
         (fold (\<lambda>pg cur. next_chapter cur pg) (take i doc) (fst st), n) (doc ! i))"
    by blast
  with assms(2) have
    "d \<in> set (fst (process_page e p cn
         (fold (\<lambda>pg cur. next_chapter cur pg) (take i doc) (fst st), n) (doc ! i)))"
    by simp
  from process_page_chunk [OF this] assms(1) show ?thesis
    by (simp add: most_recent_chapter_fold [symmetric] take_Suc_conv_app_nth)
qed

lemma most_recent_chapter_last:
  "most_recent_chapter cur (ps @ [pg]) =
     (if is_chapter_heading (page_heading pg) then or_empty (page_heading pg)
      else most_recent_chapter cur ps)"
  by (simp add: most_recent_chapter_def)

text \<open>
  Claim C2 (chapter inheritance). The chunks of a page whose heading contains "chapter"
  carry that heading as their chapter; the chunks of any other page carry the most
  recently seen chapter heading of the pages before it (the empty string when there is
  none).
\<close>

theorem chapter_inheritance:
  assumes "i < length doc"
    and "d \<in> set (process_pages e pdf_path collection_name (None, 0) doc ! i)"
  shows "(\<forall>h. page_heading (doc ! i) = Some h \<and> contains ''chapter'' (lower h)
            \<longrightarrow> meta_get d ''chapter'' = Some (MStr h))
       \<and> (\<not> is_chapter_heading (page_heading (doc ! i))
            \<longrightarrow> meta_get d ''chapter'' = Some (MStr (most_recent_chapter None (take i doc))))"
proof -
  from page_chunk_at [OF assms] assms(1) have
    "meta_get d ''chapter'' =
       Some (MStr (most_recent_chapter None (take i doc @ [doc ! i])))"
    by (simp add: take_Suc_conv_app_nth)
  then show ?thesis
    by (auto simp: most_recent_chapter_last is_chapter_heading_def or_empty_def)
qed

text \<open>
  The three pages of the specification's example: headings "Chapter 1", none,
  "Chapter 2". The chunk of the second page carries "Chapter 1".
\<close>

theorem chapter_inheritance_witness:
  "(1::nat) < length chapter_doc
   \<and> tagged ''More text'' ''book'' ''Chapter 1'' [] ''book.pdf'' 1 ''book.pdf_p1_f0_s0_3f2a9c41''
       \<in> set (process_pages sample_env ''temp/book.pdf'' ''book'' (None, 0) chapter_doc ! 1)
   \<and> page_heading (chapter_doc ! 0) = Some ''Chapter 1''
   \<and> page_heading (chapter_doc ! 1) = None
   \<and> page_heading (chapter_doc ! 2) = Some ''Chapter 2''
   \<and> \<not> is_chapter_heading (page_heading (chapter_doc ! 1))
   \<and> most_recent_chapter None (take 1 chapter_doc) = ''Chapter 1''
   \<and> meta_get (tagged ''More text'' ''book'' ''Chapter 1'' [] ''book.pdf'' 1 ''book.pdf_p1_f0_s0_3f2a9c41'')
        ''chapter'' = Some (MStr ''Chapter 1'')
   \<and> (2::nat) < length chapter_doc
   \<and> tagged ''Chapter 2\<newline>Next'' ''book'' ''Chapter 2'' [] ''book.pdf'' 2 ''book.pdf_p2_f0_s0_3f2a9c41''
       \<in> set (process_pages sample_env ''temp/book.pdf'' ''book'' (None, 0) chapter_doc ! 2)
   \<and> contains ''chapter'' (lower ''Chapter 2'')
   \<and> meta_get (tagged ''Chapter 2\<newline>Next'' ''book'' ''Chapter 2'' [] ''book.pdf'' 2 ''book.pdf_p2_f0_s0_3f2a9c41'')
        ''chapter'' = Some (MStr ''Chapter 2'')"
proof -
  let ?d1 = "tagged ''More text'' ''book'' ''Chapter 1'' [] ''book.pdf'' 1 ''book.pdf_p1_f0_s0_3f2a9c41''"
  let ?d2 = "tagged ''Chapter 2\<newline>Next'' ''book'' ''Chapter 2'' [] ''book.pdf'' 2 ''book.pdf_p2_f0_s0_3f2a9c41''"
  have len: "length chapter_doc = 3" by (simp add: chapter_doc_def)
  have h: "page_heading (chapter_doc ! 0) = Some ''Chapter 1''"
          "page_heading (chapter_doc ! 1) = None"
          "page_heading (chapter_doc ! 2) = Some ''Chapter 2''"
    using chapter_doc_headings len by (simp_all add: list_eq_iff_nth_eq)
  have m1: "?d1 \<in> set (process_pages sample_env ''temp/book.pdf'' ''book'' (None, 0) chapter_doc ! 1)"
    and m2: "?d2 \<in> set (process_pages sample_env ''temp/book.pdf'' ''book'' (None, 0) chapter_doc ! 2)"
    by (simp_all add: chapter_doc_run)
  have n1: "\<not> is_chapter_heading (page_heading (chapter_doc ! 1))"
    using h(2) by (simp add: is_chapter_heading_def)
  have c2: "contains ''chapter'' (lower ''Chapter 2'')" by code_simp
  have i1: "(1::nat) < length chapter_doc" and i2: "(2::nat) < length chapter_doc"
    by (simp_all add: len)
  have mr: "most_recent_chapter None (take 1 chapter_doc) = ''Chapter 1''"
    by code_simp
  from chapter_inheritance [OF i1 m1] n1 mr
  have r1: "meta_get ?d1 ''chapter'' = Some (MStr ''Chapter 1'')" by simp
  from chapter_inheritance [OF i2 m2] h(3) c2
  have r2: "meta_get ?d2 ''chapter'' = Some (MStr ''Chapter 2'')" by blast
  from i1 m1 h n1 mr r1 i2 m2 c2 r2 show ?thesis by blast
qed

text \<open>
  Claim C8 (the section is page-local). Whatever state the earlier pages left, the
  section of a page's chunks is the section classification of that page's own heading;
  it is non-empty only if that heading is not a chapter heading and contains "section"
  or starts as a numbered heading.
\<close>

theorem section_page_local:
  assumes "i < length doc"
    and "d \<in> set (process_pages e pdf_path collection_name st doc ! i)"
  shows "meta_get d ''section'' = Some (MStr (section_of_heading (page_heading (doc ! i))))
       \<and> (\<forall>s. meta_get d ''section'' = Some (MStr s) \<and> s \<noteq> [] \<longrightarrow>
             page_heading (doc ! i) = Some s \<and> \<not> contains ''chapter'' (lower s)
             \<and> (contains ''section'' (lower s) \<or> match_start numbered_prefix s))"
proof -
  from page_chunk_at [OF assms] have
    s: "meta_get d ''section'' = Some (MStr (section_of_heading (page_heading (doc ! i))))"
    by simp
  moreover have "section_of_heading hd = s \<Longrightarrow> s \<noteq> [] \<Longrightarrow>
      hd = Some s \<and> \<not> contains ''chapter'' (lower s)
      \<and> (contains ''section'' (lower s) \<or> match_start numbered_prefix s)" for hd s
    by (cases hd) (auto simp: section_of_heading_def split: if_splits)
  ultimately show ?thesis by auto
qed

text \<open>
  A page headed "1.2 Scope" gives its chunk that section; the next page, without a
  heading, has the empty section.
\<close>

theorem section_page_local_witness:
  "(1::nat) < length mixed_doc
   \<and> tagged ''1.2 Scope'' ''notes'' ''Section 2 of Chapter 1'' ''1.2 Scope'' ''notes.pdf'' 1
        ''notes.pdf_p1_f0_s0_3f2a9c41''
       \<in> set (process_pages sample_env ''temp/notes.pdf'' ''notes'' (None, 0) mixed_doc ! 1)
   \<and> page_heading (mixed_doc ! 1) = Some ''1.2 Scope''
   \<and> section_of_heading (page_heading (mixed_doc ! 1)) = ''1.2 Scope''
   \<and> \<not> contains ''chapter'' (lower ''1.2 Scope'')
   \<and> match_start numbered_prefix ''1.2 Scope''
   \<and> (2::nat) < length mixed_doc
   \<and> tagged ''plain'' ''notes'' ''Section 2 of Chapter 1'' [] ''notes.pdf'' 2
        ''notes.pdf_p2_f0_s0_3f2a9c41''
       \<in> set (process_pages sample_env ''temp/notes.pdf'' ''notes'' (None, 0) mixed_doc ! 2)
   \<and> section_of_heading (page_heading (mixed_doc ! 2)) = []"
proof -
  let ?d1 = "tagged ''1.2 Scope'' ''notes'' ''Section 2 of Chapter 1'' ''1.2 Scope'' ''notes.pdf'' 1
        ''notes.pdf_p1_f0_s0_3f2a9c41''"
  let ?d2 = "tagged ''plain'' ''notes'' ''Section 2 of Chapter 1'' [] ''notes.pdf'' 2
        ''notes.pdf_p2_f0_s0_3f2a9c41''"
  have len: "length mixed_doc = 4" by (simp add: mixed_doc_def)
  have i1: "(1::nat) < length mixed_doc" and i2: "(2::nat) < length mixed_doc"
    by (simp_all add: len)
  have m1: "?d1 \<in> set (process_pages sample_env ''temp/notes.pdf'' ''notes'' (None, 0) mixed_doc ! 1)"
    and m2: "?d2 \<in> set (process_pages sample_env ''temp/notes.pdf'' ''notes'' (None, 0) mixed_doc ! 2)"
    by (simp_all add: mixed_doc_run)
  have s1: "meta_get ?d1 ''section'' = Some (MStr ''1.2 Scope'')"
    and s2: "meta_get ?d2 ''section'' = Some (MStr [])"
    by (simp_all add: tagged_def meta_get_def)
  from section_page_local [OF i1 m1, THEN conjunct1] s1
  have r1: "section_of_heading (page_heading (mixed_doc ! 1)) = ''1.2 Scope''"
    by simp
  have ne: "''1.2 Scope'' \<noteq> []" by simp
  from section_page_local [OF i1 m1, THEN conjunct2, rule_format, of "''1.2 Scope''"] s1 ne
  have r1': "page_heading (mixed_doc ! 1) = Some ''1.2 Scope''
       \<and> \<not> contains ''chapter'' (lower ''1.2 Scope'')
       \<and> (contains ''section'' (lower ''1.2 Scope'') \<or> match_start numbered_prefix ''1.2 Scope'')"
    by (simp only: simp_thms)
  have ns: "\<not> contains ''section'' (lower ''1.2 Scope'')" by code_simp
  from section_page_local [OF i2 m2, THEN conjunct1] s2
  have r2: "section_of_heading (page_heading (mixed_doc ! 2)) = []" by simp
  from i1 i2 m1 m2 r1 r1' ns r2 show ?thesis by blast
qed

text \<open>
  Claim C10 (chapter before section). When the heading of a page contains "chapter",
  its chunks get the heading as chapter and the empty section, whatever else the heading
  contains.
\<close>

theorem chapter_precedence:
  assumes "i < length doc"
    and "d \<in> set (process_pages e pdf_path collection_name (None, 0) doc ! i)"
    and "page_heading (doc ! i) = Some h"
    and "contains ''chapter'' (lower h)"
  shows "meta_get d ''chapter'' = Some (MStr h) \<and> meta_get d ''section'' = Some (MStr [])"
proof -
  from assms(3,4) have c: "is_chapter_heading (page_heading (doc ! i))"
    by (simp add: is_chapter_heading_def)
  from page_chunk_at [OF assms(1,2)] assms(1) have
    "meta_get d ''chapter'' = Some (MStr (most_recent_chapter None (take i doc @ [doc ! i])))"
    and "meta_get d ''section'' = Some (MStr (section_of_heading (page_heading (doc ! i))))"
    by (simp_all add: take_Suc_conv_app_nth)
  with c assms(3,4) show ?thesis
    by (simp add: most_recent_chapter_last or_empty_def section_of_heading_def)
qed

text \<open>
  The heading "Section 2 of Chapter 1" contains both words and is filed as a chapter.
\<close>

theorem chapter_precedence_witness:
  "(0::nat) < length mixed_doc
   \<and> tagged ''Section 2 of Chapter 1'' ''notes'' ''Section 2 of Chapter 1'' [] ''notes.pdf'' 0
         ''notes.pdf_p0_f0_s0_3f2a9c41''
       \<in> set (process_pages sample_env ''temp/notes.pdf'' ''notes'' (None, 0) mixed_doc ! 0)
   \<and> page_heading (mixed_doc ! 0) = Some ''Section 2 of Chapter 1''
   \<and> contains ''chapter'' (lower ''Section 2 of Chapter 1'')
   \<and> contains ''section'' (lower ''Section 2 of Chapter 1'')
   \<and> meta_get (tagged ''Section 2 of Chapter 1'' ''notes'' ''Section 2 of Chapter 1'' [] ''notes.pdf'' 0
         ''notes.pdf_p0_f0_s0_3f2a9c41'') ''chapter'' = Some (MStr ''Section 2 of Chapter 1'')
   \<and> meta_get (tagged ''Section 2 of Chapter 1'' ''notes'' ''Section 2 of Chapter 1'' [] ''notes.pdf'' 0
         ''notes.pdf_p0_f0_s0_3f2a9c41'') ''section'' = Some (MStr [])"
proof -
  let ?d = "tagged ''Section 2 of Chapter 1'' ''notes'' ''Section 2 of Chapter 1'' [] ''notes.pdf'' 0
         ''notes.pdf_p0_f0_s0_3f2a9c41''"
  have len: "length mixed_doc = 4" by (simp add: mixed_doc_def)
  have i0: "(0::nat) < length mixed_doc" by (simp add: len)
  have m: "?d \<in> set (process_pages sample_env ''temp/notes.pdf'' ''notes'' (None, 0) mixed_doc ! 0)"
    by (simp add: mixed_doc_run)
  have h: "page_heading (mixed_doc ! 0) = Some ''Section 2 of Chapter 1''"
    using mixed_doc_headings len by (simp add: list_eq_iff_nth_eq)
  have c: "contains ''chapter'' (lower ''Section 2 of Chapter 1'')"
    and s: "contains ''section'' (lower ''Section 2 of Chapter 1'')"
    by code_simp+
  from chapter_precedence [OF i0 m h c] i0 m h c s show ?thesis by blast
qed

lemma strip_all_space:
  assumes "\<forall>c \<in> set s. is_space c"
  shows "strip s = []"
proof -
  from assms have "dropWhile is_space s = []" by (simp add: dropWhile_eq_Nil_conv)
  then show ?thesis by (simp only: strip_def rev.simps dropWhile.simps)
qed

lemma set_strip: "set (strip s) \<subseteq> set s"
proof -
  have "set (dropWhile is_space (rev (dropWhile is_space s))) \<subseteq> set (dropWhile is_space s)"
    using set_dropWhileD [of _ is_space "rev (dropWhile is_space s)"] by auto
  moreover have "set (dropWhile is_space s) \<subseteq> set s"
    using set_dropWhileD [of _ is_space s] by auto
  ultimately show ?thesis by (auto simp: strip_def)
qed

lemma emit_chunks_all_empty:
  "\<forall>t \<in> set ts. strip t = [] \<Longrightarrow> emit_chunks e c sidx n ts = ([], n)"
  by (induction ts arbitrary: sidx) auto

lemma process_page_whitespace:
  assumes "\<forall>t. \<forall>piece \<in> set (split_text e t). set piece \<subseteq> set t"
    and "\<forall>ch \<in> set (page_content pg). is_space ch"
  shows "fst (process_page e p cn st pg) = []"
proof -
  have "\<forall>t \<in> set (small_chunks e (page_content pg)). strip t = []"
  proof
    fix t assume "t \<in> set (small_chunks e (page_content pg))"
    with assms(1) have "set t \<subseteq> set (page_content pg)"
      by (auto simp: small_chunks_def split: if_splits)
    with assms(2) show "strip t = []" by (auto intro: strip_all_space)
  qed
  then show ?thesis
    by (simp add: process_page_def Let_def emit_chunks_all_empty split: prod.splits)
qed

section \<open>Heading extraction\<close>

lemma first_match_None:
  "first_match ps text = None \<longleftrightarrow> (\<forall>p \<in> set ps. search p text = None)"
  by (induction ps) (auto split: option.splits)

lemma first_match_priority:
  "i < length ps \<Longrightarrow> \<forall>j < i. search (ps ! j) text = None \<Longrightarrow>
     search (ps ! i) text = Some m \<Longrightarrow> first_match ps text = Some m"
proof (induction ps arbitrary: i)
  case Nil
  then show ?case by simp
next
  case (Cons p ps)
  show ?case
  proof (cases i)
    case 0
    with Cons.prems show ?thesis by simp
  next
    case (Suc k)
    with Cons.prems have "search p text = None" by auto
    moreover from Suc Cons.prems have "first_match ps text = Some m"
      by (intro Cons.IH [of k]) auto
    ultimately show ?thesis by simp
  qed
qed

lemma search_from_span:
  "search_from ic r prev s = Some m \<Longrightarrow> \<exists>pre post. s = pre @ m @ post"
proof (induction s arbitrary: prev)
  case Nil
  then show ?case by (auto split: list.splits)
next
  case (Cons c cs)
  show ?case
  proof (cases "rmatch ic r (prev, c # cs)")
    case Nil
    with Cons.prems have "search_from ic r (Some c) cs = Some m" by simp
    from Cons.IH [OF this] obtain pre post where "cs = pre @ m @ post" by blast
    then have "c # cs = (c # pre) @ m @ post" by simp
    then show ?thesis by blast
  next
    case (Cons e es)
    with Cons.prems have "m = take (length (c # cs) - length (snd e)) (c # cs)" by simp
    then have "c # cs = [] @ m @ drop (length (c # cs) - length (snd e)) (c # cs)" by simp
    then show ?thesis by blast
  qed
qed

lemma search_span: "search p text = Some m \<Longrightarrow> \<exists>pre post. text = pre @ m @ post"
  unfolding search_def by (rule search_from_span)

lemma HEADING_PATTERNS_length: "length HEADING_PATTERNS = 5"
  by (simp add: HEADING_PATTERNS_def)

text \<open>
  Claim C5 (priority over position). \<^verbatim>\<open>extract_heading\<close> returns nothing exactly when
  none of the five patterns matches anywhere in the text; otherwise it returns the span
  matched by the first pattern, in the order of \<^verbatim>\<open>HEADING_PATTERNS\<close>, that matches
  somewhere, wherever the later patterns match. The span is a part of the text.
\<close>

theorem extract_heading_priority:
  "(extract_heading text = None \<longleftrightarrow> (\<forall>p \<in> set HEADING_PATTERNS. search p text = None))
   \<and> (\<forall>i < length HEADING_PATTERNS. \<forall>m.
         (\<forall>j < i. search (HEADING_PATTERNS ! j) text = None)
         \<and> search (HEADING_PATTERNS ! i) text = Some m
         \<longrightarrow> extract_heading text = Some m \<and> (\<exists>pre post. text = pre @ m @ post))"
  unfolding extract_heading_def
  using first_match_None first_match_priority search_span by blast

lemma priority_sample:
  "search pattern_numbered ''1.1 Intro\<newline>Chapter 2'' = Some ''1.1 Intro''"
  "search pattern_chapter ''1.1 Intro\<newline>Chapter 2'' = Some ''Chapter 2''"
  by code_simp+

text \<open>
  The numbered heading comes first in the text, the chapter heading first in the list:
  the chapter heading is returned.
\<close>

theorem extract_heading_priority_witness:
  "search pattern_numbered ''1.1 Intro\<newline>Chapter 2'' = Some ''1.1 Intro''
   \<and> search (HEADING_PATTERNS ! 0) ''1.1 Intro\<newline>Chapter 2'' = Some ''Chapter 2''
   \<and> extract_heading ''1.1 Intro\<newline>Chapter 2'' = Some ''Chapter 2''"
proof -
  have p0: "HEADING_PATTERNS ! 0 = pattern_chapter" by (simp add: HEADING_PATTERNS_def)
  have i0: "(0::nat) < length HEADING_PATTERNS" by (simp add: HEADING_PATTERNS_def)
  have s0: "search (HEADING_PATTERNS ! 0) ''1.1 Intro\<newline>Chapter 2'' = Some ''Chapter 2''"
    by (simp only: p0 priority_sample)
  from extract_heading_priority [of "''1.1 Intro\<newline>Chapter 2''", THEN conjunct2, rule_format, of 0 "''Chapter 2''"]
    i0 s0
  have "extract_heading ''1.1 Intro\<newline>Chapter 2'' = Some ''Chapter 2''" by simp
  with priority_sample(1) s0 show ?thesis by blast
qed

lemma concat_map_nonempty: "concat (map f xs) \<noteq> [] \<longleftrightarrow> (\<exists>x \<in> set xs. f x \<noteq> [])"
  by (induction xs) auto

lemma star_iter_nonempty: "star_iter n f cur \<noteq> []"
  by (cases n) auto

lemma rmatch_Seq_mono:
  assumes "rmatch ic (Seq r a) cur \<noteq> []"
    and "\<And>c. rmatch ic a c \<noteq> [] \<Longrightarrow> rmatch ic b c \<noteq> []"
  shows "rmatch ic (Seq r b) cur \<noteq> []"
  using assms by (auto simp: concat_map_nonempty)

lemma alpha_tail:
  assumes "rmatch False (Seq (Cls (ascii_uppercase @ ascii_lowercase)) (Seq (Star Dot) Eps)) c \<noteq> []"
  shows "rmatch False (Seq (Plus Dot) Eps) c \<noteq> []"
proof (cases "snd c")
  case Nil
  with assms show ?thesis by (simp add: step_def)
next
  case (Cons x xs)
  with assms have "x \<in> set (ascii_uppercase @ ascii_lowercase)"
    by (auto simp: step_def split: if_splits)
  then have "x \<noteq> newline"
    by (auto simp: ascii_uppercase_def ascii_lowercase_def newline_def)
  with Cons show ?thesis
    by (simp add: concat_map_nonempty step_def star_iter_nonempty)
qed

lemma numbered_alpha_at:
  assumes "rmatch (fst pattern_numbered_alpha) (snd pattern_numbered_alpha) cur \<noteq> []"
  shows "rmatch (fst pattern_numbered) (snd pattern_numbered) cur \<noteq> []"
proof -
  let ?tail4 = "Seq (Cls (ascii_uppercase @ ascii_lowercase)) (Seq (Star Dot) Eps)"
  let ?tail3 = "Seq (Plus Dot) Eps"
  from assms have
    "rmatch False (Seq Bol (Seq dotted_numeral (Seq (Plus Space) ?tail4))) cur \<noteq> []"
    unfolding pattern_numbered_alpha_def seqs_def fst_conv snd_conv foldr.simps o_apply id_apply .
  then have
    "rmatch False (Seq Bol (Seq dotted_numeral (Seq (Plus Space) ?tail3))) cur \<noteq> []"
    by (elim rmatch_Seq_mono alpha_tail)
  then show ?thesis
    unfolding pattern_numbered_def seqs_def fst_conv snd_conv foldr.simps o_apply id_apply .
qed

lemma search_from_mono:
  assumes "\<And>cur. rmatch ic r cur \<noteq> [] \<Longrightarrow> rmatch ic' r' cur \<noteq> []"
  shows "search_from ic r prev s \<noteq> None \<Longrightarrow> search_from ic' r' prev s \<noteq> None"
proof (induction s arbitrary: prev)
  case Nil
  with assms [of "(prev, [])"] show ?case by (auto split: list.splits)
next
  case (Cons c cs)
  show ?case
  proof (cases "rmatch ic' r' (prev, c # cs)")
    case Nil
    with assms [of "(prev, c # cs)"] have "rmatch ic r (prev, c # cs) = []" by auto
    with Cons.prems have "search_from ic r (Some c) cs \<noteq> None" by simp
    from Cons.IH [OF this] Nil show ?thesis by simp
  next
    case (Cons e es)
    then show ?thesis by simp
  qed
qed

lemma numbered_alpha_search:
  "search pattern_numbered_alpha text \<noteq> None \<Longrightarrow> search pattern_numbered text \<noteq> None"
  unfolding search_def by (rule search_from_mono [OF numbered_alpha_at])

text \<open>
  Claim C9 (pattern 3 subsumes pattern 4). Wherever the stricter numbered pattern
  matches, the general one matches too; so the fourth pattern never decides, and
  \<^verbatim>\<open>extract_heading\<close> is the same function without it.
\<close>

theorem numbered_alpha_subsumed:
  "(search pattern_numbered_alpha text \<noteq> None \<longrightarrow> search pattern_numbered text \<noteq> None)
   \<and> extract_heading text =
       first_match [pattern_chapter, pattern_section, pattern_numbered, pattern_link] text"
  using numbered_alpha_search [of "text"]
  by (auto simp: extract_heading_def HEADING_PATTERNS_def split: option.splits)

lemma alpha_sample: "search pattern_numbered_alpha ''1.2 Intro'' = Some ''1.2 Intro''"
  by code_simp

text \<open>
  Both numbered patterns match "1.2 Intro".
\<close>

theorem numbered_alpha_subsumed_witness:
  "search pattern_numbered_alpha ''1.2 Intro'' = Some ''1.2 Intro''
   \<and> search pattern_numbered ''1.2 Intro'' \<noteq> None"
proof -
  from alpha_sample have "search pattern_numbered_alpha ''1.2 Intro'' \<noteq> None" by simp
  with numbered_alpha_subsumed [of "''1.2 Intro''", THEN conjunct1]
  have "search pattern_numbered ''1.2 Intro'' \<noteq> None" by (rule mp)
  with alpha_sample show ?thesis by (rule conjI)
qed

section \<open>What is indexed, and when ingestion fails\<close>

lemma split_documents_metadata:
  "d \<in> set (split_documents e doc) \<Longrightarrow> \<exists>pg \<in> set doc. metadata d = metadata pg"
  by (auto simp: split_documents_def)

lemma ingest_retriever_docs:
  assumes "ingest_pdf_to_vectordb e pdf_path cn dk = (Inr (r, vs, cds), dk')"
    and "load_pdf e pdf_path = Some doc"
  shows "dense_docs r = split_documents e doc \<and> lexical_docs r = split_documents e doc
       \<and> cds = chunk_docs_of e pdf_path (default_collection_name pdf_path cn) doc"
  using assms by (auto simp: ingest_pdf_to_vectordb_def Let_def split: if_splits)

lemma book_ingest:
  "ingest_pdf_to_vectordb sample_env ''temp/book.pdf'' None Map.empty =
     (Inr (\<lparr>dense_docs = split_documents sample_env chapter_doc,
            lexical_docs = split_documents sample_env chapter_doc\<rparr>,
           split_documents sample_env chapter_doc,
           concat (process_pages sample_env ''temp/book.pdf'' ''book'' (None, 0) chapter_doc)),
      [''vector_stores/book_faiss'' \<mapsto> split_documents sample_env chapter_doc])"
proof -
  have l: "load_pdf sample_env ''temp/book.pdf'' = Some chapter_doc"
    by (simp add: sample_env_def)
  have n: "default_collection_name ''temp/book.pdf'' None = ''book''"
    by code_simp
  have s: "split_documents sample_env chapter_doc \<noteq> []"
    by code_simp
  have b: "faiss_builds sample_env (split_documents sample_env chapter_doc)"
          "tfidf_builds sample_env (split_documents sample_env chapter_doc)"
    using s by (simp_all add: sample_env_def faiss_from_documents_builds_def)
  have p: "faiss_index_path ''book'' = ''vector_stores/book_faiss''"
    by (simp add: faiss_index_path_def)
  show ?thesis
    by (simp only: ingest_pdf_to_vectordb_def Let_def l n b p chunk_docs_of_def
          option.case not_True_eq_False if_False)
qed

lemma book_chunks:
  "split_documents sample_env chapter_doc =
     [\<lparr>page_content = ''Chapter 1\<newline>Intro'', metadata = loader_meta ''temp/book.pdf'' 0\<rparr>,
      \<lparr>page_content = ''More text'', metadata = loader_meta ''temp/book.pdf'' 1\<rparr>,
      \<lparr>page_content = ''Chapter 2\<newline>Next'', metadata = loader_meta ''temp/book.pdf'' 2\<rparr>]"
  by code_simp

text \<open>
  Claim C1 (every search result carries the citation tag). Both indices are built from
  \<^verbatim>\<open>chunks\<close>, the output of \<^verbatim>\<open>split_documents\<close>, and not from the tagged
  \<^verbatim>\<open>chunk_docs\<close>. A retriever returns documents its index holds, and on the sample
  book these carry the loader's metadata only: no chapter, no section and no
  page_number, while the chunks returned beside the retriever carry them.
\<close>

theorem retriever_docs_untagged:
  "(case fst (ingest_pdf_to_vectordb sample_env ''temp/book.pdf'' None Map.empty) of
      Inl err \<Rightarrow> False
    | Inr (r, vs, chunk_docs) \<Rightarrow>
        dense_docs r = lexical_docs r
        \<and> map (\<lambda>d. meta_get d ''chapter'') (dense_docs r) = [None, None, None]
        \<and> map (\<lambda>d. meta_get d ''section'') (dense_docs r) = [None, None, None]
        \<and> map (\<lambda>d. meta_get d ''page_number'') (dense_docs r) = [None, None, None]
        \<and> map (\<lambda>d. meta_get d ''source'') (dense_docs r) =
            [Some (MStr ''temp/book.pdf''), Some (MStr ''temp/book.pdf''),
             Some (MStr ''temp/book.pdf'')]
        \<and> map (\<lambda>d. meta_get d ''chapter'') chunk_docs =
            [Some (MStr ''Chapter 1''), Some (MStr ''Chapter 1''), Some (MStr ''Chapter 2'')]
        \<and> map (\<lambda>d. meta_get d ''page_number'') chunk_docs =
            [Some (MInt 0), Some (MInt 1), Some (MInt 2)])"
  by (simp add: book_ingest book_chunks chapter_doc_run meta_get_def loader_meta_def tagged_def)


lemma ingest_load_error:
  "fst (ingest_pdf_to_vectordb e pdf_path cn dk) = Inl LoadError \<longleftrightarrow> load_pdf e pdf_path = None"
  by (auto simp: ingest_pdf_to_vectordb_def Let_def split: option.splits)

lemma chunk_docs_of_Nil: "chunk_docs_of e pdf_path cn [] = []"
  by (simp add: chunk_docs_of_def)

lemma split_documents_Nil: "split_documents e [] = []"
  by (simp add: split_documents_def)

lemma faiss_rejects_empty: "\<not> faiss_from_documents_builds embeds []"
  by (simp add: faiss_from_documents_builds_def)

text \<open>
  Claim C4 (fatal load failure), as the code has it. When the loader raises, ingestion
  ends with the load error, no retriever is returned and the disk is untouched;
  ingestion ends with the load error in no other case. A document of zero pages is
  loaded without error and the code does not look at the number of pages; ingestion
  still fails on it, with no retriever returned and the disk untouched, but it fails in
  the dense index builder, which rejects the empty list of chunks, and the error is the
  builder's.
\<close>

theorem load_failure_aborts:
  "(load_pdf e pdf_path = None \<longrightarrow>
      ingest_pdf_to_vectordb e pdf_path cn dk = (Inl LoadError, dk))
   \<and> (fst (ingest_pdf_to_vectordb e pdf_path cn dk) = Inl LoadError \<longrightarrow>
      load_pdf e pdf_path = None)
   \<and> (load_pdf e pdf_path = Some [] \<and> \<not> faiss_builds e [] \<longrightarrow>
      ingest_pdf_to_vectordb e pdf_path cn dk = (Inl EmbeddingError, dk))"
proof (intro conjI impI)
  assume "load_pdf e pdf_path = None"
  then show "ingest_pdf_to_vectordb e pdf_path cn dk = (Inl LoadError, dk)"
    by (simp add: ingest_pdf_to_vectordb_def)
next
  assume "fst (ingest_pdf_to_vectordb e pdf_path cn dk) = Inl LoadError"
  then show "load_pdf e pdf_path = None" by (simp add: ingest_load_error)
next
  assume "load_pdf e pdf_path = Some [] \<and> \<not> faiss_builds e []"
  then show "ingest_pdf_to_vectordb e pdf_path cn dk = (Inl EmbeddingError, dk)"
    by (simp add: ingest_pdf_to_vectordb_def Let_def split_documents_Nil)
qed

text \<open>
  A missing file, and a file of zero pages, with the dense index builder of the library.
\<close>

theorem load_failure_aborts_witness:
  "load_pdf sample_env ''temp/missing.pdf'' = None
   \<and> ingest_pdf_to_vectordb sample_env ''temp/missing.pdf'' None Map.empty
       = (Inl LoadError, Map.empty)
   \<and> load_pdf sample_env ''temp/empty.pdf'' = Some []
   \<and> faiss_builds sample_env = faiss_from_documents_builds (\<lambda>ds. True)
   \<and> \<not> faiss_builds sample_env []
   \<and> ingest_pdf_to_vectordb sample_env ''temp/empty.pdf'' None Map.empty
       = (Inl EmbeddingError, Map.empty)"
proof -
  have m: "load_pdf sample_env ''temp/missing.pdf'' = None"
    and z: "load_pdf sample_env ''temp/empty.pdf'' = Some []"
    and b: "faiss_builds sample_env = faiss_from_documents_builds (\<lambda>ds. True)"
    by (simp_all add: sample_env_def)
  from b have f: "\<not> faiss_builds sample_env []" by (simp add: faiss_rejects_empty)
  from load_failure_aborts [of sample_env "''temp/missing.pdf''" None Map.empty] m
  have r1: "ingest_pdf_to_vectordb sample_env ''temp/missing.pdf'' None Map.empty
       = (Inl LoadError, Map.empty)" by blast
  from load_failure_aborts [of sample_env "''temp/empty.pdf''" None Map.empty] z f
  have r2: "ingest_pdf_to_vectordb sample_env ''temp/empty.pdf'' None Map.empty
       = (Inl EmbeddingError, Map.empty)" by blast
  from m r1 z b f r2 show ?thesis by blast
qed

text \<open>
  Claim C4 as stated fails in the error it names: on a document of zero pages the
  loader succeeds, and ingestion fails with the error of the dense index builder, not
  with the load error. Nothing is returned and nothing is saved, as the claim says.
\<close>

theorem zero_pages_not_load_error:
  "load_pdf sample_env ''temp/empty.pdf'' = Some []
   \<and> fst (ingest_pdf_to_vectordb sample_env ''temp/empty.pdf'' None Map.empty) \<noteq> Inl LoadError
   \<and> ingest_pdf_to_vectordb sample_env ''temp/empty.pdf'' None Map.empty
       = (Inl EmbeddingError, Map.empty)"
  by (simp add: ingest_pdf_to_vectordb_def Let_def sample_env_def split_documents_Nil
        faiss_from_documents_builds_def)

section \<open>Chunk identifiers\<close>



















lemma process_page_emit:
  "\<exists>c. fst (process_page e p cn st pg) =
          fst (emit_chunks e c 0 (snd st) (small_chunks e (page_content pg)))
       \<and> ctx_page_num c = page_num_of pg \<and> ctx_source c = basename p"
proof -
  obtain ch se cur' where t: "tag_heading (extract_heading (page_content pg)) (fst st) = (ch, se, cur')"
    by (cases "tag_heading (extract_heading (page_content pg)) (fst st)")
  let ?c = "\<lparr>ctx_book_title = cn,
            ctx_chapter = (case ch of None \<Rightarrow> cur' | Some h \<Rightarrow> Some h),
            ctx_section = se, ctx_page_num = page_num_of pg,
            ctx_source = basename p, ctx_frag_idx = 0\<rparr>"
  from t have "fst (process_page e p cn st pg) =
      fst (emit_chunks e ?c 0 (snd st) (small_chunks e (page_content pg)))"
    by (simp add: process_page_def Let_def split: prod.splits)
  then show ?thesis by (intro exI [of _ ?c]) simp
qed




























section \<open>Chunk size and overlap\<close>

lemma emit_chunks_contents:
  "map page_content (fst (emit_chunks e c sidx n ts)) = filter (\<lambda>t. t \<noteq> []) (map strip ts)"
proof (induction ts arbitrary: sidx n)
  case Nil
  show ?case by simp
next
  case (Cons t ts)
  show ?case
  proof (cases "strip t = []")
    case True
    with Cons.IH show ?thesis by simp
  next
    case False
    obtain ds n' where r: "emit_chunks e c (Suc sidx) (Suc n) ts = (ds, n')"
      by (cases "emit_chunks e c (Suc sidx) (Suc n) ts")
    from Cons.IH [of "Suc sidx" "Suc n"] r
    have "map page_content ds = filter (\<lambda>t. t \<noteq> []) (map strip ts)" by simp
    with False r show ?thesis by (simp add: make_chunk_content)
  qed
qed

lemma process_page_contents:
  "map page_content (fst (process_page e p cn st pg)) =
     filter (\<lambda>t. t \<noteq> []) (map strip (small_chunks e (page_content pg)))"
proof -
  from process_page_emit [of e p cn st pg] obtain c where
    "fst (process_page e p cn st pg) =
       fst (emit_chunks e c 0 (snd st) (small_chunks e (page_content pg)))" by blast
  then show ?thesis by (simp add: emit_chunks_contents)
qed

lemma process_pages_contents:
  assumes "i < length doc"
  shows "map page_content (process_pages e p cn st doc ! i) =
       filter (\<lambda>t. t \<noteq> []) (map strip (small_chunks e (page_content (doc ! i))))"
proof -
  from process_pages_nth [OF assms, of e p cn st] obtain n where
    "process_pages e p cn st doc ! i =
       fst (process_page e p cn
         (fold (\<lambda>pg cur. next_chapter cur pg) (take i doc) (fst st), n) (doc ! i))"
    by blast
  then show ?thesis by (simp only: process_page_contents)
qed

lemma length_strip: "length (strip s) \<le> length s"
proof -
  have "length (dropWhile is_space (rev (dropWhile is_space s))) \<le> length (dropWhile is_space s)"
    using length_dropWhile_le [of is_space "rev (dropWhile is_space s)"] by simp
  also have "\<dots> \<le> length s" by (rule length_dropWhile_le)
  finally show ?thesis by (simp add: strip_def)
qed

lemma join_docs_length:
  "join_docs docs [] = Some x \<Longrightarrow> length x \<le> sum_list (map length docs)"
proof -
  assume a: "join_docs docs [] = Some x"
  have m: "map ((@) []) l = l" for l :: "string list"
    by (induction l) simp_all
  have "(case docs of [] \<Rightarrow> [] | d # ds \<Rightarrow> d # map (\<lambda>x. [] @ x) ds) = docs"
    by (cases docs) (simp_all add: m)
  with a have "x = strip (concat docs)"
    by (simp add: join_docs_def Let_def split: if_splits)
  then show ?thesis using length_strip [of "concat docs"] by (simp add: length_concat)
qed

lemma shrink_inv:
  "total_len = sum_list (map length cur) \<Longrightarrow> shrink len 0 cur total_len = (cur', t') \<Longrightarrow>
     t' = sum_list (map length cur') \<and> (t' + len \<le> chunk_size \<or> t' = 0)"
proof (induction cur arbitrary: total_len)
  case Nil
  then show ?case by simp
next
  case (Cons x xs)
  show ?case
  proof (cases "total_len > chunk_overlap \<or> (total_len + len > chunk_size \<and> total_len > 0)")
    case True
    with Cons.prems(2) have "shrink len 0 xs (total_len - length x) = (cur', t')" by simp
    moreover from Cons.prems(1) have "total_len - length x = sum_list (map length xs)" by simp
    ultimately show ?thesis by (rule Cons.IH [rotated])
  next
    case False
    with Cons.prems(2) have c: "cur' = x # xs" and t: "t' = total_len" by simp_all
    from False have "total_len + len \<le> chunk_size \<or> total_len = 0" by auto
    with c t Cons.prems(1) show ?thesis by simp
  qed
qed

lemma merge_loop_bound:
  "total_len = sum_list (map length cur) \<Longrightarrow> total_len \<le> chunk_size \<Longrightarrow>
     \<forall>d \<in> set ds. length d < chunk_size \<Longrightarrow>
     \<forall>p \<in> set (merge_loop [] cur total_len ds). length p \<le> chunk_size"
proof (induction ds arbitrary: cur total_len)
  case Nil
  show ?case
  proof (cases "join_docs cur []")
    case None
    then show ?thesis by simp
  next
    case (Some x)
    from join_docs_length [OF this] Nil.prems(1,2) have "length x \<le> chunk_size" by simp
    with Some show ?thesis by simp
  qed
next
  case (Cons d ds)
  let ?len = "length d"
  from Cons.prems have dl: "?len < chunk_size" and rest: "\<forall>d \<in> set ds. length d < chunk_size"
    by simp_all
  have keep: "\<forall>p \<in> set (merge_loop [] (cur @ [d]) (total_len + ?len) ds). length p \<le> chunk_size"
    if "total_len + ?len \<le> chunk_size"
    using that Cons.prems(1) rest by (intro Cons.IH) simp_all
  show ?case
  proof (cases "total_len + ?len > chunk_size")
    case False
    with keep show ?thesis by (simp add: Let_def)
  next
    case over: True
    show ?thesis
    proof (cases "cur = []")
      case True
      with Cons.prems(1) over dl show ?thesis by simp
    next
      case False
      obtain cur' t' where s: "shrink ?len 0 cur total_len = (cur', t')"
        by (cases "shrink ?len 0 cur total_len")
      note inv = shrink_inv [OF Cons.prems(1) s]
      from inv have t': "t' = sum_list (map length cur')" by (rule conjunct1)
      from inv have fit: "t' + ?len \<le> chunk_size \<or> t' = 0" by (rule conjunct2)
      from fit dl have le: "t' + ?len \<le> chunk_size" by auto
      from t' have "t' + ?len = sum_list (map length (cur' @ [d]))" by simp
      from Cons.IH [OF this _ rest] le
      have tail: "\<forall>p \<in> set (merge_loop [] (cur' @ [d]) (t' + ?len) ds). length p \<le> chunk_size"
        by simp
      have head: "\<forall>p \<in> set (case join_docs cur [] of None \<Rightarrow> [] | Some doc \<Rightarrow> [doc]).
                    length p \<le> chunk_size"
      proof (cases "join_docs cur []")
        case None
        then show ?thesis by simp
      next
        case (Some x)
        from join_docs_length [OF this] Cons.prems(1,2) have "length x \<le> chunk_size" by simp
        with Some show ?thesis by simp
      qed
      from over False s head tail show ?thesis by (auto simp: Let_def)
    qed
  qed
qed

lemma merge_splits_bound:
  "\<forall>d \<in> set ds. length d < chunk_size \<Longrightarrow>
     \<forall>p \<in> set (merge_splits ds []). length p \<le> chunk_size"
proof -
  assume a: "\<forall>d \<in> set ds. length d < chunk_size"
  have z: "(0::nat) = sum_list (map length ([] :: string list))" by simp
  have "\<forall>p \<in> set (merge_loop [] [] 0 ds). length p \<le> chunk_size"
    by (rule merge_loop_bound [OF z _ a]) simp
  then show ?thesis by (simp only: merge_splits_def)
qed

lemma gather_bound:
  "\<forall>s \<in> set ss. length s \<ge> chunk_size \<longrightarrow> (\<forall>p \<in> set (deeper s). length p \<le> chunk_size) \<Longrightarrow>
     \<forall>g \<in> set good. length g < chunk_size \<Longrightarrow>
     \<forall>p \<in> set (gather deeper good ss). length p \<le> chunk_size"
proof (induction ss arbitrary: good)
  case Nil
  then show ?case using merge_splits_bound [of good] by simp
next
  case (Cons s ss)
  show ?case
  proof (cases "length s < chunk_size")
    case True
    with Cons.prems have "\<forall>p \<in> set (gather deeper (good @ [s]) ss). length p \<le> chunk_size"
      by (intro Cons.IH) auto
    with True show ?thesis by simp
  next
    case False
    from Cons.prems(1) have "\<forall>p \<in> set (gather deeper [] ss). length p \<le> chunk_size"
      by (intro Cons.IH) auto
    moreover from False Cons.prems(1) have "\<forall>p \<in> set (deeper s). length p \<le> chunk_size"
      by simp
    moreover have "\<forall>p \<in> set (if good \<noteq> [] then merge_splits good [] else []). length p \<le> chunk_size"
      using merge_splits_bound [OF Cons.prems(2)] by simp
    ultimately show ?thesis using False by auto
  qed
qed

lemma chars_bound: "\<forall>p \<in> set (recursive_split [[]] text). length p \<le> chunk_size"
proof -
  have "\<forall>s \<in> set (split_text_with_regex text []). length s < chunk_size"
    by (auto simp: split_text_with_regex_def chunk_size_def)
  then have "\<forall>p \<in> set (gather (\<lambda>p. [p]) [] (split_text_with_regex text [])).
               length p \<le> chunk_size"
    by (intro gather_bound) (simp_all add: not_le [symmetric])
  then show ?thesis by simp
qed

lemma step_bound:
  assumes "\<And>t. \<forall>p \<in> set (recursive_split (s' # ss) t). length p \<le> chunk_size"
    and "s \<noteq> []"
  shows "\<forall>p \<in> set (recursive_split (s # s' # ss) text). length p \<le> chunk_size"
proof (cases "contains s text")
  case True
  have "\<forall>p \<in> set (gather (recursive_split (s' # ss)) [] (split_text_with_regex text s)).
          length p \<le> chunk_size"
    using assms(1) by (intro gather_bound) auto
  with True assms(2) show ?thesis by simp
next
  case False
  with assms show ?thesis by simp
qed

lemma rcts_split_text_bound: "\<forall>p \<in> set (rcts_split_text text). length p \<le> chunk_size"
proof -
  have b1: "\<forall>p \<in> set (recursive_split ['' '', []] t). length p \<le> chunk_size" for t
    by (rule step_bound [OF chars_bound]) simp
  have b2: "\<forall>p \<in> set (recursive_split [[newline], '' '', []] t). length p \<le> chunk_size" for t
    by (rule step_bound [OF b1]) simp
  have "\<forall>p \<in> set (recursive_split [[newline, newline], [newline], '' '', []] text).
          length p \<le> chunk_size"
    by (rule step_bound [OF b2]) simp
  then show ?thesis by (simp only: rcts_split_text_def separators_def)
qed

lemma contains_single: "contains [c] t \<longleftrightarrow> c \<in> set t"
  by (induction t) auto

lemma contains_first: "contains (c # s) t \<Longrightarrow> c \<in> set t"
  by (induction t) auto

lemma split_keep_skip:
  "c \<notin> set xs \<Longrightarrow> split_keep [c] 0 cur (xs @ ys) = split_keep [c] 0 (cur @ xs) ys"
  by (induction xs arbitrary: cur) auto

lemma split_keep_rest: "c \<notin> set xs \<Longrightarrow> split_keep [c] 0 cur xs = [cur @ xs]"
  using split_keep_skip [of c xs cur "[]"] by simp

lemma strip_space_Cons:
  assumes "is_space c"
  shows "strip (c # s) = strip s"
proof -
  from assms have "dropWhile is_space (c # s) = dropWhile is_space s" by simp
  then show ?thesis by (simp only: strip_def)
qed

lemma strip_replicate:
  assumes "0 < n" and "\<not> is_space c"
  shows "strip (replicate n c) = replicate n c"
proof -
  from assms have d: "dropWhile is_space (replicate n c) = replicate n c"
    by (simp add: dropWhile_eq_self_iff)
  have r: "rev (replicate n c) = replicate n c" by simp
  show ?thesis by (simp only: strip_def d r)
qed

lemma not_space_ab: "\<not> is_space CHR ''a''" "\<not> is_space CHR ''b''" "is_space CHR '' ''"
  by (simp_all add: is_space_def whitespace_def)

lemma long_text_split:
  "rcts_split_text long_text = [replicate 600 CHR ''a'', replicate 600 CHR ''b'']"
proof -
  let ?A = "replicate 600 CHR ''a''" and ?B = "replicate 600 CHR ''b''"
  have set_long: "set long_text = {CHR ''a'', CHR '' '', CHR ''b''}"
    by (auto simp: long_text_def)
  have n1: "\<not> contains [newline, newline] long_text"
    using contains_first [of newline "[newline]" long_text] set_long
    by (auto simp: newline_def)
  have n2: "\<not> contains [newline] long_text"
    using set_long by (simp add: contains_single newline_def)
  have n3: "contains '' '' long_text"
    using set_long by (simp add: contains_single)
  have sk: "split_keep '' '' 0 [] long_text = [?A, CHR '' '' # ?B]"
  proof -
    have "split_keep '' '' 0 [] (?A @ (CHR '' '' # ?B)) = split_keep '' '' 0 ([] @ ?A) (CHR '' '' # ?B)"
      by (rule split_keep_skip) simp
    also have "\<dots> = ?A # split_keep '' '' 0 '' '' ?B" by simp
    also have "split_keep '' '' 0 '' '' ?B = ['' '' @ ?B]"
      by (rule split_keep_rest) simp
    finally show ?thesis by (simp add: long_text_def)
  qed
  have sp: "split_text_with_regex long_text '' '' = [?A, CHR '' '' # ?B]"
    by (simp add: split_text_with_regex_def sk)
  have sA: "strip ?A = ?A" and sB: "strip (CHR '' '' # ?B) = ?B"
    by (simp_all add: strip_space_Cons strip_replicate not_space_ab)
  have jA: "join_docs [?A] [] = Some ?A"
    using sA by (simp add: join_docs_def)
  have jB: "join_docs [CHR '' '' # ?B] [] = Some ?B"
    using sB by (simp add: join_docs_def)
  have sh: "shrink 601 0 [?A] 600 = ([], 0)"
    by (simp add: chunk_overlap_def)
  have m: "merge_splits [?A, CHR '' '' # ?B] [] = [?A, ?B]"
    by (simp add: merge_splits_def Let_def chunk_size_def sh jA jB)
  have g: "gather deeper [] [?A, CHR '' '' # ?B] = [?A, ?B]" for deeper
    by (simp add: chunk_size_def m)
  have "recursive_split [[newline, newline], [newline], '' '', []] long_text =
          gather (recursive_split [[]]) [] (split_text_with_regex long_text '' '')"
    using n1 n2 n3 by simp
  then show ?thesis
    by (simp only: rcts_split_text_def separators_def sp g)
qed

lemma small_chunks_length:
  assumes "split_text e = rcts_split_text" and "t \<in> set (small_chunks e text)"
  shows "length t \<le> 1000"
proof (cases "length text > 1000")
  case True
  with assms have "t \<in> set (rcts_split_text text)" by (simp add: small_chunks_def)
  with rcts_split_text_bound [of "text"] show ?thesis by (simp add: chunk_size_def)
next
  case False
  with assms(2) show ?thesis by (simp add: small_chunks_def)
qed

lemma long_doc_contents:
  "map page_content (process_pages lib_env ''temp/long.pdf'' ''long'' (None, 0) long_doc ! 0)
     = [replicate 600 CHR ''a'', replicate 600 CHR ''b'']"
proof -
  have i: "0 < length long_doc" by (simp add: long_doc_def)
  have l: "length long_text = 1201" by (simp add: long_text_def)
  have s: "split_text lib_env = rcts_split_text" by (simp add: lib_env_def)
  have sc: "small_chunks lib_env (page_content (long_doc ! 0))
              = [replicate 600 CHR ''a'', replicate 600 CHR ''b'']"
    by (simp add: long_doc_def small_chunks_def l s long_text_split)
  show ?thesis
    by (simp only: process_pages_contents [OF i] sc)
       (simp add: strip_replicate not_space_ab)
qed

lemma long_doc_all_contents:
  "map page_content (chunk_docs_of lib_env ''temp/long.pdf'' ''long'' long_doc)
     = [replicate 600 CHR ''a'', replicate 600 CHR ''b'', ''Tail'']"
proof -
  have i: "1 < length long_doc" by (simp add: long_doc_def)
  have st: "strip ''Tail'' = ''Tail''" by code_simp
  have "map page_content (process_pages lib_env ''temp/long.pdf'' ''long'' (None, 0) long_doc ! 1)
          = [''Tail'']"
    by (simp only: process_pages_contents [OF i]) (simp add: long_doc_def small_chunks_def st)
  moreover have "length (process_pages lib_env ''temp/long.pdf'' ''long'' (None, 0) long_doc) = 2"
    by (simp only: process_pages_length) (simp add: long_doc_def)
  then have "process_pages lib_env ''temp/long.pdf'' ''long'' (None, 0) long_doc =
      [process_pages lib_env ''temp/long.pdf'' ''long'' (None, 0) long_doc ! 0,
       process_pages lib_env ''temp/long.pdf'' ''long'' (None, 0) long_doc ! 1]"
    by (simp add: list_eq_iff_nth_eq less_Suc_eq numeral_2_eq_2)
  then have "chunk_docs_of lib_env ''temp/long.pdf'' ''long'' long_doc =
      process_pages lib_env ''temp/long.pdf'' ''long'' (None, 0) long_doc ! 0 @
      process_pages lib_env ''temp/long.pdf'' ''long'' (None, 0) long_doc ! 1"
    unfolding chunk_docs_of_def by (metis append_Nil2 concat.simps)
  ultimately show ?thesis using long_doc_contents by simp
qed

section \<open>Empty chunks\<close>

lemma split_keep_chars:
  "p \<in> set (split_keep sep k cur tx) \<Longrightarrow> set p \<subseteq> set cur \<union> set sep \<union> set tx"
proof (induction tx arbitrary: k cur)
  case Nil
  then show ?case by auto
next
  case (Cons c cs)
  show ?case
  proof (cases "k > 0")
    case True
    with Cons.prems have "p \<in> set (split_keep sep (k - 1) cur cs)" by simp
    from Cons.IH [OF this] show ?thesis by auto
  next
    case k: False
    show ?thesis
    proof (cases "starts_with sep (c # cs)")
      case True
      with k Cons.prems have "p = cur \<or> p \<in> set (split_keep sep (length sep - 1) sep cs)"
        by simp
      then show ?thesis
      proof
        assume "p = cur"
        then show ?thesis by auto
      next
        assume "p \<in> set (split_keep sep (length sep - 1) sep cs)"
        from Cons.IH [OF this] show ?thesis by auto
      qed
    next
      case False
      with k Cons.prems have "p \<in> set (split_keep sep 0 (cur @ [c]) cs)" by simp
      from Cons.IH [OF this] show ?thesis by auto
    qed
  qed
qed

lemma split_text_with_regex_chars:
  "p \<in> set (split_text_with_regex tx sep) \<Longrightarrow> set p \<subseteq> set sep \<union> set tx"
proof (cases "sep = []")
  case True
  assume "p \<in> set (split_text_with_regex tx sep)"
  with True show ?thesis by (auto simp: split_text_with_regex_def)
next
  case False
  assume "p \<in> set (split_text_with_regex tx sep)"
  with False have "p \<in> set (split_keep sep 0 [] tx)"
    by (simp add: split_text_with_regex_def)
  from split_keep_chars [OF this] show ?thesis by simp
qed

lemma starts_with_chars: "starts_with sep t \<Longrightarrow> set sep \<subseteq> set t"
  by (induction sep t rule: starts_with.induct) auto

lemma contains_chars: "contains sep t \<Longrightarrow> set sep \<subseteq> set t"
proof (induction t)
  case Nil
  then show ?case by simp
next
  case (Cons c cs)
  from Cons.prems have "starts_with sep (c # cs) \<or> contains sep cs" by simp
  then show ?case
  proof
    assume "starts_with sep (c # cs)"
    then show ?thesis by (rule starts_with_chars)
  next
    assume "contains sep cs"
    from Cons.IH [OF this] show ?thesis by auto
  qed
qed

lemma join_docs_chars: "join_docs docs [] = Some x \<Longrightarrow> set x \<subseteq> \<Union> (set ` set docs)"
proof -
  assume a: "join_docs docs [] = Some x"
  have m: "map ((@) []) l = l" for l :: "string list"
    by (induction l) simp_all
  have "(case docs of [] \<Rightarrow> [] | d # ds \<Rightarrow> d # map (\<lambda>x. [] @ x) ds) = docs"
    by (cases docs) (simp_all add: m)
  with a have "x = strip (concat docs)"
    by (simp add: join_docs_def Let_def split: if_splits)
  with set_strip [of "concat docs"] show ?thesis by auto
qed

lemma shrink_suffix: "shrink len sl cur t = (cur', t') \<Longrightarrow> set cur' \<subseteq> set cur"
proof (induction cur arbitrary: t)
  case Nil
  then show ?case by simp
next
  case (Cons x xs)
  show ?case
  proof (cases "t > chunk_overlap
         \<or> (t + len + (if length (x # xs) > 0 then sl else 0) > chunk_size \<and> t > 0)")
    case True
    with Cons.prems have
      "shrink len sl xs (t - (length x + (if length (x # xs) > 1 then sl else 0))) = (cur', t')"
      by simp
    from Cons.IH [OF this] show ?thesis by auto
  next
    case False
    with Cons.prems have "cur' = x # xs" by (auto split: if_splits)
    then show ?thesis by simp
  qed
qed

lemma merge_loop_chars:
  "p \<in> set (merge_loop [] cur t ds) \<Longrightarrow> set p \<subseteq> \<Union> (set ` (set cur \<union> set ds))"
proof (induction ds arbitrary: cur t)
  case Nil
  then have "join_docs cur [] = Some p" by (auto split: option.splits)
  from join_docs_chars [OF this] show ?case by auto
next
  case (Cons d ds)
  let ?len = "length d"
  have grow: "set p \<subseteq> \<Union> (set ` (set cur \<union> set (d # ds)))"
    if "p \<in> set (merge_loop [] (cur @ [d]) t2 ds)" for t2
    using Cons.IH [OF that] by auto
  show ?case
  proof (cases "t + ?len > chunk_size \<and> cur \<noteq> []")
    case False
    with Cons.prems have "\<exists>t2. p \<in> set (merge_loop [] (cur @ [d]) t2 ds)"
      by (auto simp: Let_def split: if_splits)
    with grow show ?thesis by blast
  next
    case True
    obtain cur' t' where s: "shrink ?len 0 cur t = (cur', t')"
      by (cases "shrink ?len 0 cur t")
    with True Cons.prems have
      "p \<in> set (case join_docs cur [] of None \<Rightarrow> [] | Some doc \<Rightarrow> [doc])
       \<or> p \<in> set (merge_loop [] (cur' @ [d]) (t' + ?len) ds)"
      by (auto simp: Let_def)
    then show ?thesis
    proof
      assume "p \<in> set (case join_docs cur [] of None \<Rightarrow> [] | Some doc \<Rightarrow> [doc])"
      then have "join_docs cur [] = Some p" by (auto split: option.splits)
      from join_docs_chars [OF this] show ?thesis by auto
    next
      assume "p \<in> set (merge_loop [] (cur' @ [d]) (t' + ?len) ds)"
      from Cons.IH [OF this] shrink_suffix [OF s] show ?thesis by fastforce
    qed
  qed
qed

lemma merge_splits_chars:
  "p \<in> set (merge_splits ds []) \<Longrightarrow> set p \<subseteq> \<Union> (set ` set ds)"
  unfolding merge_splits_def using merge_loop_chars [of p "[]" 0 ds] by simp

lemma gather_chars:
  assumes "\<And>s q. q \<in> set (deeper s) \<Longrightarrow> set q \<subseteq> set s"
  shows "p \<in> set (gather deeper good ss) \<Longrightarrow> set p \<subseteq> \<Union> (set ` (set good \<union> set ss))"
proof (induction ss arbitrary: good)
  case Nil
  then have "p \<in> set (merge_splits good [])" by (simp split: if_splits)
  from merge_splits_chars [OF this] show ?case by simp
next
  case (Cons s ss)
  show ?case
  proof (cases "length s < chunk_size")
    case True
    with Cons.prems have "p \<in> set (gather deeper (good @ [s]) ss)" by simp
    from Cons.IH [OF this] show ?thesis by auto
  next
    case False
    with Cons.prems have "p \<in> set (if good \<noteq> [] then merge_splits good [] else [])
        \<or> p \<in> set (deeper s) \<or> p \<in> set (gather deeper [] ss)" by auto
    then show ?thesis
    proof (elim disjE)
      assume "p \<in> set (if good \<noteq> [] then merge_splits good [] else [])"
      then have "p \<in> set (merge_splits good [])" by (simp split: if_splits)
      from merge_splits_chars [OF this] show ?thesis by auto
    next
      assume "p \<in> set (deeper s)"
      from assms [OF this] show ?thesis by auto
    next
      assume "p \<in> set (gather deeper [] ss)"
      from Cons.IH [OF this] show ?thesis by auto
    qed
  qed
qed

lemma gather_split_chars:
  assumes "\<And>s q. q \<in> set (deeper s) \<Longrightarrow> set q \<subseteq> set s"
    and "set sep \<subseteq> set tx"
    and "p \<in> set (gather deeper [] (split_text_with_regex tx sep))"
  shows "set p \<subseteq> set tx"
proof
  fix ch assume "ch \<in> set p"
  with gather_chars [OF assms(1) assms(3)] obtain s where
    "s \<in> set (split_text_with_regex tx sep)" and "ch \<in> set s" by auto
  with split_text_with_regex_chars [of s tx sep] assms(2) show "ch \<in> set tx" by auto
qed

lemma chars_level: "p \<in> set (recursive_split [[]] tx) \<Longrightarrow> set p \<subseteq> set tx"
  using gather_split_chars [of "\<lambda>p. [p]" "[]" "tx" p] by simp

lemma step_chars:
  assumes "\<And>t q. q \<in> set (recursive_split (s' # ss) t) \<Longrightarrow> set q \<subseteq> set t"
    and "s \<noteq> []"
    and "p \<in> set (recursive_split (s # s' # ss) tx)"
  shows "set p \<subseteq> set tx"
proof (cases "contains s tx")
  case True
  with assms(2,3) have "p \<in> set (gather (recursive_split (s' # ss)) [] (split_text_with_regex tx s))"
    by simp
  from gather_split_chars [OF assms(1) contains_chars [OF True] this] show ?thesis .
next
  case False
  with assms(2,3) have "p \<in> set (recursive_split (s' # ss) tx)" by simp
  from assms(1) [OF this] show ?thesis .
qed

lemma rcts_split_text_chars: "p \<in> set (rcts_split_text tx) \<Longrightarrow> set p \<subseteq> set tx"
proof -
  assume a: "p \<in> set (rcts_split_text tx)"
  have b1: "set q \<subseteq> set t" if "q \<in> set (recursive_split ['' '', []] t)" for q t
    using that by (rule step_chars [OF chars_level, rotated 2]) simp_all
  have b2: "set q \<subseteq> set t" if "q \<in> set (recursive_split [[newline], '' '', []] t)" for q t
    using that by (rule step_chars [OF b1, rotated 2]) simp_all
  from a have "p \<in> set (recursive_split [[newline, newline], [newline], '' '', []] tx)"
    by (simp only: rcts_split_text_def separators_def)
  then show ?thesis by (rule step_chars [OF b2, rotated 2]) simp_all
qed

text \<open>
  Claim C7 (empty sub-chunks are discarded). No chunk has empty content, and a page of
  white space only gives no chunk. For a page longer than 1000 characters the pieces
  come from the text splitter, which is assumed to build them from characters of the
  text it is given, as the library's splitter does.
\<close>

theorem no_empty_chunks:
  assumes "\<forall>t. \<forall>piece \<in> set (split_text e t). set piece \<subseteq> set t"
  shows "(\<forall>d \<in> set (chunk_docs_of e pdf_path collection_name doc). page_content d \<noteq> [])
       \<and> (\<forall>i < length doc. (\<forall>ch \<in> set (page_content (doc ! i)). is_space ch) \<longrightarrow>
             process_pages e pdf_path collection_name (None, 0) doc ! i = [])"
proof (intro conjI ballI allI impI)
  fix d assume "d \<in> set (chunk_docs_of e pdf_path collection_name doc)"
  then obtain out where "out \<in> set (process_pages e pdf_path collection_name (None, 0) doc)"
    and dout: "d \<in> set out"
    by (auto simp: chunk_docs_of_def)
  then obtain i where "i < length doc"
    and "process_pages e pdf_path collection_name (None, 0) doc ! i = out"
    by (auto simp: in_set_conv_nth process_pages_length)
  with dout have "i < length doc"
    and "d \<in> set (process_pages e pdf_path collection_name (None, 0) doc ! i)"
    by simp_all
  from page_chunk_at [OF this] show "page_content d \<noteq> []" by simp
next
  fix i assume i: "i < length doc" and w: "\<forall>ch \<in> set (page_content (doc ! i)). is_space ch"
  from process_pages_nth [OF i, of e pdf_path collection_name "(None, 0)"] obtain n where
    "process_pages e pdf_path collection_name (None, 0) doc ! i =
       fst (process_page e pdf_path collection_name
         (fold (\<lambda>pg cur. next_chapter cur pg) (take i doc) None, n) (doc ! i))"
    by auto
  with process_page_whitespace [OF assms w]
  show "process_pages e pdf_path collection_name (None, 0) doc ! i = []" by simp
qed

text \<open>
  The fourth sample page holds white space only; so does the page of 1001 blanks, which
  goes through the library's splitter.
\<close>

theorem no_empty_chunks_witness:
  "(3::nat) < length mixed_doc
   \<and> page_content (mixed_doc ! 3) = [CHR '' '', newline, CHR '' '', CHR '' '']
   \<and> process_pages sample_env ''temp/notes.pdf'' ''notes'' (None, 0) mixed_doc ! 3 = []
   \<and> [] \<notin> set (map page_content (chunk_docs_of sample_env ''temp/notes.pdf'' ''notes'' mixed_doc))
   \<and> length (page_content (blank_doc ! 0)) = 1001
   \<and> process_pages lib_env ''temp/blank.pdf'' ''blank'' (None, 0) blank_doc ! 0 = []"
proof -
  have sp: "\<forall>t. \<forall>piece \<in> set (split_text sample_env t). set piece \<subseteq> set t"
    using set_strip by (auto simp: sample_env_def short_split_def)
  have i3: "(3::nat) < length mixed_doc" by (simp add: mixed_doc_def)
  have pc: "page_content (mixed_doc ! 3) = [CHR '' '', newline, CHR '' '', CHR '' '']"
    by (simp add: mixed_doc_def newline_def)
  have w: "\<forall>ch \<in> set (page_content (mixed_doc ! 3)). is_space ch"
    by (simp add: mixed_doc_def is_space_def whitespace_def)
  from no_empty_chunks [OF sp, of "''temp/notes.pdf''" "''notes''" mixed_doc] i3 w
  have r1: "process_pages sample_env ''temp/notes.pdf'' ''notes'' (None, 0) mixed_doc ! 3 = []"
    and r2: "[] \<notin> set (map page_content (chunk_docs_of sample_env ''temp/notes.pdf'' ''notes'' mixed_doc))"
    by auto
  have lp: "\<forall>t. \<forall>piece \<in> set (split_text lib_env t). set piece \<subseteq> set t"
    using rcts_split_text_chars by (simp add: lib_env_def)
  have i0: "(0::nat) < length blank_doc" by (simp add: blank_doc_def)
  have bl: "length (page_content (blank_doc ! 0)) = 1001" by (simp add: blank_doc_def)
  have bw: "\<forall>ch \<in> set (page_content (blank_doc ! 0)). is_space ch"
    by (simp add: blank_doc_def is_space_def whitespace_def)
  from no_empty_chunks [OF lp, of "''temp/blank.pdf''" "''blank''" blank_doc] i0 bw
  have r3: "process_pages lib_env ''temp/blank.pdf'' ''blank'' (None, 0) blank_doc ! 0 = []"
    by blast
  from i3 pc r1 r2 bl r3 show ?thesis by blast
qed

section \<open>Hard cuts and the overlap of their windows\<close>

lemma strip_id:
  assumes "\<forall>c \<in> set w. \<not> is_space c"
  shows "strip w = w"
proof -
  have k: "dropWhile is_space xs = xs" if "\<forall>c \<in> set xs. \<not> is_space c" for xs
    using that by (cases xs) simp_all
  from assms have "dropWhile is_space w = w" by (rule k)
  moreover from assms have "dropWhile is_space (rev w) = rev w" by (intro k) simp
  ultimately show ?thesis by (simp add: strip_def)
qed

lemma concat_singles: "concat (map (\<lambda>c. [c]) w) = w"
  by (induction w) simp_all

lemma join_singles:
  assumes "w \<noteq> []" and "\<forall>c \<in> set w. \<not> is_space c"
  shows "join_docs (map (\<lambda>c. [c]) w) [] = Some w"
proof -
  have m: "map ((@) []) l = l" for l :: "string list"
    by (induction l) simp_all
  have "(case map (\<lambda>c. [c]) w of [] \<Rightarrow> [] | d # ds \<Rightarrow> d # map (\<lambda>x. [] @ x) ds) = map (\<lambda>c. [c]) w"
    by (cases "map (\<lambda>c. [c]) w") (simp_all add: m)
  then have "join_docs (map (\<lambda>c. [c]) w) [] =
      (let t = strip (concat (map (\<lambda>c. [c]) w)) in if t = [] then None else Some t)"
    by (simp only: join_docs_def)
  with assms strip_id [OF assms(2)] show ?thesis by (simp add: concat_singles)
qed

lemma shrink_singles:
  "chunk_overlap \<le> length w \<Longrightarrow> length w \<le> chunk_size \<Longrightarrow>
     shrink 1 0 (map (\<lambda>c. [c]) w) (length w)
       = (map (\<lambda>c. [c]) (drop (length w - chunk_overlap) w), chunk_overlap)"
proof (induction w)
  case Nil
  then show ?case by simp
next
  case (Cons x xs)
  show ?case
  proof (cases "length (x # xs) = chunk_overlap")
    case True
    then show ?thesis by (simp add: chunk_size_def chunk_overlap_def)
  next
    case False
    with Cons.prems have g: "chunk_overlap < length (x # xs)" by simp
    then have "chunk_overlap \<le> length xs" by simp
    moreover from Cons.prems have "length xs \<le> chunk_size" by simp
    ultimately have "shrink 1 0 (map (\<lambda>c. [c]) xs) (length xs)
       = (map (\<lambda>c. [c]) (drop (length xs - chunk_overlap) xs), chunk_overlap)"
      by (rule Cons.IH)
    moreover from g have "drop (length (x # xs) - chunk_overlap) (x # xs)
        = drop (length xs - chunk_overlap) xs"
      by (simp add: Suc_diff_le)
    ultimately show ?thesis using g by simp
  qed
qed


lemma windows_Nil: "windows [] = []"
  by (simp add: windows.simps)

lemma merge_loop_windows:
  "\<forall>c \<in> set (w @ r). \<not> is_space c \<Longrightarrow> length w \<le> chunk_size \<Longrightarrow>
     merge_loop [] (map (\<lambda>c. [c]) w) (length w) (map (\<lambda>c. [c]) r) = windows (w @ r)"
proof (induction r arbitrary: w)
  case Nil
  show ?case
  proof (cases "w = []")
    case True
    then show ?thesis by (simp add: windows_Nil join_docs_def strip_def)
  next
    case False
    with Nil.prems join_singles [of w] have "join_docs (map (\<lambda>c. [c]) w) [] = Some w" by simp
    with False Nil.prems(2) show ?thesis by (simp add: windows.simps [of w])
  qed
next
  case (Cons c r)
  have ns: "\<forall>x \<in> set ((w @ [c]) @ r). \<not> is_space x" using Cons.prems(1) by simp
  show ?case
  proof (cases "length w < chunk_size")
    case True
    then have "merge_loop [] (map (\<lambda>c. [c]) w) (length w) (map (\<lambda>c. [c]) (c # r))
        = merge_loop [] (map (\<lambda>c. [c]) (w @ [c])) (length (w @ [c])) (map (\<lambda>c. [c]) r)"
      by (simp add: Let_def)
    also from True have "\<dots> = windows ((w @ [c]) @ r)"
      by (intro Cons.IH ns) simp
    finally show ?thesis by simp
  next
    case False
    with Cons.prems(2) have full: "length w = chunk_size" by simp
    then have w: "w \<noteq> []" by (auto simp: chunk_size_def)
    from Cons.prems(1) have nsw: "\<forall>x \<in> set w. \<not> is_space x" by simp
    have pos: "0 < chunk_size" by (simp add: chunk_size_def)
    let ?w' = "drop (chunk_size - chunk_overlap) w"
    have sh: "shrink 1 0 (map (\<lambda>c. [c]) w) (length w) = (map (\<lambda>c. [c]) ?w', chunk_overlap)"
      using shrink_singles [of w] full by (simp add: chunk_size_def chunk_overlap_def)
    have lw': "length (?w' @ [c]) = Suc chunk_overlap"
      using full by (simp add: chunk_size_def chunk_overlap_def)
    have ns': "\<forall>x \<in> set ((?w' @ [c]) @ r). \<not> is_space x"
      using Cons.prems(1) by (auto dest: in_set_dropD)
    have "merge_loop [] (map (\<lambda>c. [c]) w) (length w) (map (\<lambda>c. [c]) (c # r))
        = w # merge_loop [] (map (\<lambda>c. [c]) (?w' @ [c])) (length (?w' @ [c])) (map (\<lambda>c. [c]) r)"
      using full w sh lw' join_singles [OF w nsw] pos by (simp add: Let_def)
    also have "merge_loop [] (map (\<lambda>c. [c]) (?w' @ [c])) (length (?w' @ [c])) (map (\<lambda>c. [c]) r)
        = windows ((?w' @ [c]) @ r)"
      using lw' by (intro Cons.IH ns') (simp add: chunk_size_def chunk_overlap_def)
    also have "w # windows ((?w' @ [c]) @ r) = windows (w @ c # r)"
      using full by (simp add: windows.simps [of "w @ c # r"])
    finally show ?thesis .
  qed
qed


lemma gather_singles:
  "gather deeper good (map (\<lambda>c. [c]) r) =
     (if good @ map (\<lambda>c. [c]) r \<noteq> [] then merge_splits (good @ map (\<lambda>c. [c]) r) [] else [])"
  by (induction r arbitrary: good) (simp_all add: chunk_size_def)

lemma rcts_split_text_windows:
  assumes "\<forall>c \<in> set t. \<not> is_space c"
  shows "rcts_split_text t = windows t"
proof -
  have sp: "is_space newline" "is_space CHR '' ''"
    by (simp_all add: is_space_def whitespace_def newline_def)
  have n1: "\<not> contains [newline, newline] t"
    using contains_chars [of "[newline, newline]" t] assms sp by auto
  have n2: "\<not> contains [newline] t"
    using contains_chars [of "[newline]" t] assms sp by auto
  have n3: "\<not> contains '' '' t"
    using contains_chars [of "'' ''" t] assms sp by auto
  have "rcts_split_text t = gather (\<lambda>p. [p]) [] (map (\<lambda>c. [c]) t)"
    using n1 n2 n3 by (simp add: rcts_split_text_def separators_def split_text_with_regex_def)
  also have "\<dots> = (if t \<noteq> [] then merge_loop [] [] 0 (map (\<lambda>c. [c]) t) else [])"
    by (simp add: gather_singles merge_splits_def)
  also have "\<dots> = windows t"
  proof (cases "t = []")
    case True
    then show ?thesis by (simp add: windows_Nil)
  next
    case False
    have "merge_loop [] (map (\<lambda>c. [c]) []) (length ([] :: string)) (map (\<lambda>c. [c]) t)
            = windows ([] @ t)"
      by (rule merge_loop_windows) (use assms in simp_all)
    with False show ?thesis by simp
  qed
  finally show ?thesis .
qed

lemma windows_members: "p \<in> set (windows t) \<Longrightarrow> p \<noteq> [] \<and> set p \<subseteq> set t"
proof (induction t rule: windows.induct)
  case (1 t)
  show ?case
  proof (cases "length t \<le> chunk_size")
    case True
    with 1(2) show ?thesis by (simp add: windows.simps [of t] split: if_splits)
  next
    case False
    with 1(2) have "p = take chunk_size t \<or> p \<in> set (windows (drop (chunk_size - chunk_overlap) t))"
      by (simp add: windows.simps [of t])
    then show ?thesis
    proof
      assume "p = take chunk_size t"
      with False show ?thesis by (auto simp: chunk_size_def dest: in_set_takeD)
    next
      assume "p \<in> set (windows (drop (chunk_size - chunk_overlap) t))"
      from 1(1) [OF False this] show ?thesis by (auto dest: in_set_dropD)
    qed
  qed
qed

lemma windows_head:
  "chunk_overlap \<le> length t \<Longrightarrow> t \<noteq> [] \<Longrightarrow>
     \<exists>y ys. windows t = y # ys \<and> chunk_overlap \<le> length y \<and> take chunk_overlap y = take chunk_overlap t"
  by (simp add: windows.simps [of t] chunk_size_def chunk_overlap_def)

lemma windows_overlap:
  "Suc k < length (windows t) \<Longrightarrow> overlap_by chunk_overlap (windows t ! k) (windows t ! Suc k)"
proof (induction t arbitrary: k rule: windows.induct)
  case (1 t)
  show ?case
  proof (cases "length t \<le> chunk_size")
    case True
    with 1(2) show ?thesis by (simp add: windows.simps [of t] split: if_splits)
  next
    case False
    let ?d = "drop (chunk_size - chunk_overlap) t"
    have w: "windows t = take chunk_size t # windows ?d"
      using False by (simp add: windows.simps [of t])
    show ?thesis
    proof (cases k)
      case 0
      from False have "chunk_overlap \<le> length ?d" and "?d \<noteq> []"
        by (auto simp: chunk_size_def chunk_overlap_def)
      from windows_head [OF this] obtain y ys where y: "windows ?d = y # ys"
        and ly: "chunk_overlap \<le> length y"
        and ty: "take chunk_overlap y = take chunk_overlap ?d" by blast
      have "drop (length (take chunk_size t) - chunk_overlap) (take chunk_size t)
              = take chunk_overlap ?d"
        using False by (simp add: chunk_size_def chunk_overlap_def drop_take)
      with False 0 w y ly ty show ?thesis
        by (simp add: overlap_by_def chunk_size_def chunk_overlap_def)
    next
      case (Suc j)
      with 1(2) w have "Suc j < length (windows ?d)" by simp
      from 1(1) [OF False this] Suc w show ?thesis by simp
    qed
  qed
qed

lemma windows_packed:
  "windows packed_text =
     [replicate 900 CHR ''a'' @ replicate 100 CHR ''b'',
      replicate 100 CHR ''a'' @ replicate 900 CHR ''b'']"
proof -
  let ?A = "replicate 900 CHR ''a''" and ?B = "replicate 900 CHR ''b''"
  have t: "take chunk_size (?A @ ?B) = ?A @ replicate 100 CHR ''b''"
    by (simp add: chunk_size_def)
  have d: "drop (chunk_size - chunk_overlap) (?A @ ?B) = replicate 100 CHR ''a'' @ ?B"
    by (simp add: chunk_size_def chunk_overlap_def)
  have "windows (?A @ ?B) = take chunk_size (?A @ ?B) # windows (drop (chunk_size - chunk_overlap) (?A @ ?B))"
    by (subst windows.simps) (simp add: chunk_size_def)
  also have "windows (drop (chunk_size - chunk_overlap) (?A @ ?B)) = [replicate 100 CHR ''a'' @ ?B]"
    unfolding d by (subst windows.simps) (simp add: chunk_size_def)
  finally have "windows (?A @ ?B) =
      [take chunk_size (?A @ ?B), replicate 100 CHR ''a'' @ ?B]" .
  then show ?thesis by (simp only: t packed_text_def)
qed

lemma chunk_length_bound:
  assumes "split_text e = rcts_split_text"
    and "d \<in> set (chunk_docs_of e pdf_path collection_name doc)"
  shows "length (page_content d) \<le> 1000"
proof -
  from assms(2) obtain out where "out \<in> set (process_pages e pdf_path collection_name (None, 0) doc)"
    and dout: "d \<in> set out"
    by (auto simp: chunk_docs_of_def)
  then obtain i where i: "i < length doc"
    and "process_pages e pdf_path collection_name (None, 0) doc ! i = out"
    by (auto simp: in_set_conv_nth process_pages_length)
  with dout have "page_content d
      \<in> set (map page_content (process_pages e pdf_path collection_name (None, 0) doc ! i))"
    by auto
  then have "page_content d
      \<in> set (filter (\<lambda>t. t \<noteq> []) (map strip (small_chunks e (page_content (doc ! i)))))"
    by (simp only: process_pages_contents [OF i])
  then obtain t where t: "t \<in> set (small_chunks e (page_content (doc ! i)))"
    and "page_content d = strip t" by auto
  with length_strip [of t] small_chunks_length [OF assms(1) t]
  show ?thesis by simp
qed

lemma short_page_contents:
  assumes "i < length doc" and "length (page_content (doc ! i)) \<le> 1000"
  shows "map page_content (process_pages e pdf_path collection_name st doc ! i)
           = filter (\<lambda>t. t \<noteq> []) [strip (page_content (doc ! i))]"
proof -
  from assms(2) have "small_chunks e (page_content (doc ! i)) = [page_content (doc ! i)]"
    by (simp add: small_chunks_def)
  then show ?thesis by (simp add: process_pages_contents [OF assms(1)])
qed

lemma page_windows:
  assumes "split_text e = rcts_split_text"
    and i: "i < length doc"
    and long: "1000 < length (page_content (doc ! i))"
    and ns: "\<forall>c \<in> set (page_content (doc ! i)). \<not> is_space c"
  shows "map page_content (process_pages e pdf_path collection_name st doc ! i)
           = windows (page_content (doc ! i))"
proof -
  let ?t = "page_content (doc ! i)"
  from long assms(1) have sc: "small_chunks e ?t = windows ?t"
    by (simp add: small_chunks_def rcts_split_text_windows [OF ns])
  have keep: "strip p = p \<and> p \<noteq> []" if "p \<in> set (windows ?t)" for p
  proof -
    from windows_members [OF that] ns have "p \<noteq> []" and "\<forall>c \<in> set p. \<not> is_space c" by auto
    then show ?thesis by (simp add: strip_id)
  qed
  then have "map strip (windows ?t) = windows ?t"
    by (simp add: map_idI)
  moreover from keep have "filter (\<lambda>t. t \<noteq> []) (windows ?t) = windows ?t"
    by (simp add: filter_id_conv)
  ultimately show ?thesis
    by (simp add: process_pages_contents [OF i] sc)
qed

lemma page_windows_overlap:
  assumes "map page_content ps = windows t" and "Suc k < length ps"
  shows "overlap_by 200 (page_content (ps ! k)) (page_content (ps ! Suc k))"
proof -
  from assms(1) have l: "length (windows t) = length ps" by (metis length_map)
  with assms(2) windows_overlap [of k t]
  have "overlap_by chunk_overlap (windows t ! k) (windows t ! Suc k)" by simp
  moreover from assms have "windows t ! k = page_content (ps ! k)"
    and "windows t ! Suc k = page_content (ps ! Suc k)"
    by (metis Suc_lessD nth_map)+
  ultimately show ?thesis by (simp add: chunk_overlap_def)
qed

text \<open>
  Claim C6 (chunk size and overlap), as the code has it. With the library's splitter,
  every chunk has at most 1000 characters; a fragment of at most 1000 characters is not
  split: it gives its stripped text as one chunk, or no chunk when that is empty; and a
  fragment of more than 1000 characters that holds no white space is cut into the
  windows of the specification: 1000 characters each, the last one possibly shorter,
  each starting 800 characters after the one before, so that every two consecutive
  chunks of the fragment overlap by exactly 200 characters. Of a longer fragment that
  holds white space only the bound of 1000 characters is stated.
\<close>

theorem chunk_size_and_windows:
  assumes "split_text e = rcts_split_text"
  shows "(\<forall>d \<in> set (chunk_docs_of e pdf_path collection_name doc). length (page_content d) \<le> 1000)
       \<and> (\<forall>i < length doc. length (page_content (doc ! i)) \<le> 1000 \<longrightarrow>
             map page_content (process_pages e pdf_path collection_name (None, 0) doc ! i)
               = filter (\<lambda>t. t \<noteq> []) [strip (page_content (doc ! i))])
       \<and> (\<forall>i < length doc.
             1000 < length (page_content (doc ! i))
             \<and> (\<forall>c \<in> set (page_content (doc ! i)). \<not> is_space c) \<longrightarrow>
             map page_content (process_pages e pdf_path collection_name (None, 0) doc ! i)
               = windows (page_content (doc ! i))
             \<and> (\<forall>k. Suc k < length (process_pages e pdf_path collection_name (None, 0) doc ! i) \<longrightarrow>
                   overlap_by 200
                     (page_content (process_pages e pdf_path collection_name (None, 0) doc ! i ! k))
                     (page_content (process_pages e pdf_path collection_name (None, 0) doc ! i ! Suc k))))"
proof (intro conjI ballI allI impI)
  fix d assume "d \<in> set (chunk_docs_of e pdf_path collection_name doc)"
  with assms show "length (page_content d) \<le> 1000" by (rule chunk_length_bound)
next
  fix i assume "i < length doc" and "length (page_content (doc ! i)) \<le> 1000"
  then show "map page_content (process_pages e pdf_path collection_name (None, 0) doc ! i)
               = filter (\<lambda>t. t \<noteq> []) [strip (page_content (doc ! i))]"
    by (rule short_page_contents)
next
  fix i
  assume i: "i < length doc"
    and h: "1000 < length (page_content (doc ! i))
             \<and> (\<forall>c \<in> set (page_content (doc ! i)). \<not> is_space c)"
  then show "map page_content (process_pages e pdf_path collection_name (None, 0) doc ! i)
               = windows (page_content (doc ! i))"
    using page_windows [OF assms i] by blast
next
  fix i k
  assume i: "i < length doc"
    and h: "1000 < length (page_content (doc ! i))
             \<and> (\<forall>c \<in> set (page_content (doc ! i)). \<not> is_space c)"
    and k: "Suc k < length (process_pages e pdf_path collection_name (None, 0) doc ! i)"
  from h have "map page_content (process_pages e pdf_path collection_name (None, 0) doc ! i)
               = windows (page_content (doc ! i))"
    using page_windows [OF assms i] by blast
  from page_windows_overlap [OF this k]
  show "overlap_by 200
          (page_content (process_pages e pdf_path collection_name (None, 0) doc ! i ! k))
          (page_content (process_pages e pdf_path collection_name (None, 0) doc ! i ! Suc k))" .
qed

lemma packed_doc_contents:
  "map page_content (process_pages lib_env ''temp/packed.pdf'' ''packed'' (None, 0) packed_doc ! 0)
     = [replicate 900 CHR ''a'' @ replicate 100 CHR ''b'',
        replicate 100 CHR ''a'' @ replicate 900 CHR ''b'']"
proof -
  have s: "split_text lib_env = rcts_split_text" by (simp add: lib_env_def)
  have i: "0 < length packed_doc" by (simp add: packed_doc_def)
  have p: "page_content (packed_doc ! 0) = packed_text" by (simp add: packed_doc_def)
  have l: "1000 < length (page_content (packed_doc ! 0))"
    by (simp add: p packed_text_def)
  have ns: "\<forall>c \<in> set (page_content (packed_doc ! 0)). \<not> is_space c"
    by (auto simp: p packed_text_def not_space_ab)
  from page_windows [OF s i l ns] show ?thesis by (simp only: p windows_packed)
qed

text \<open>
  The document with the page of 1201 characters and a short second page, and the page
  of 1800 letters, whose two chunks are its first and its last 1000 characters.
\<close>

theorem chunk_size_and_windows_witness:
  "split_text lib_env = rcts_split_text
   \<and> map page_content (chunk_docs_of lib_env ''temp/long.pdf'' ''long'' long_doc)
       = [replicate 600 CHR ''a'', replicate 600 CHR ''b'', ''Tail'']
   \<and> length (replicate 600 CHR ''a'') \<le> 1000
   \<and> length (page_content (long_doc ! 1)) \<le> 1000
   \<and> map page_content (process_pages lib_env ''temp/long.pdf'' ''long'' (None, 0) long_doc ! 1)
       = [''Tail'']
   \<and> length (page_content (packed_doc ! 0)) = 1800
   \<and> map page_content (process_pages lib_env ''temp/packed.pdf'' ''packed'' (None, 0) packed_doc ! 0)
       = [replicate 900 CHR ''a'' @ replicate 100 CHR ''b'',
          replicate 100 CHR ''a'' @ replicate 900 CHR ''b'']
   \<and> windows (page_content (packed_doc ! 0))
       = [replicate 900 CHR ''a'' @ replicate 100 CHR ''b'',
          replicate 100 CHR ''a'' @ replicate 900 CHR ''b'']
   \<and> overlap_by 200
        (page_content (process_pages lib_env ''temp/packed.pdf'' ''packed'' (None, 0) packed_doc ! 0 ! 0))
        (page_content (process_pages lib_env ''temp/packed.pdf'' ''packed'' (None, 0) packed_doc ! 0 ! 1))"
proof -
  have s: "split_text lib_env = rcts_split_text" by (simp add: lib_env_def)
  note b = chunk_size_and_windows [OF s, of "''temp/long.pdf''" "''long''" long_doc]
  have i: "1 < length long_doc" and l: "length (page_content (long_doc ! 1)) \<le> 1000"
    and p: "page_content (long_doc ! 1) = ''Tail''"
    by (simp_all add: long_doc_def)
  have st: "strip ''Tail'' = ''Tail''" by code_simp
  from b i l have "map page_content (process_pages lib_env ''temp/long.pdf'' ''long'' (None, 0) long_doc ! 1)
      = filter (\<lambda>t. t \<noteq> []) [strip (page_content (long_doc ! 1))]" by blast
  then have c: "map page_content (process_pages lib_env ''temp/long.pdf'' ''long'' (None, 0) long_doc ! 1)
      = [''Tail'']" unfolding p st by simp
  have "replicate 600 CHR ''a''
      \<in> set (map page_content (chunk_docs_of lib_env ''temp/long.pdf'' ''long'' long_doc))"
    by (simp add: long_doc_all_contents)
  then obtain d where "d \<in> set (chunk_docs_of lib_env ''temp/long.pdf'' ''long'' long_doc)"
    and "page_content d = replicate 600 CHR ''a''" by auto
  with b have a: "length (replicate 600 CHR ''a'') \<le> 1000" by metis
  note w = chunk_size_and_windows [OF s, of "''temp/packed.pdf''" "''packed''" packed_doc]
  let ?ps = "process_pages lib_env ''temp/packed.pdf'' ''packed'' (None, 0) packed_doc ! 0"
  have i0: "0 < length packed_doc" by (simp add: packed_doc_def)
  have pk: "page_content (packed_doc ! 0) = packed_text" by (simp add: packed_doc_def)
  have pl: "length (page_content (packed_doc ! 0)) = 1800"
    by (simp add: pk packed_text_def)
  have ns: "\<forall>c \<in> set (page_content (packed_doc ! 0)). \<not> is_space c"
    by (auto simp: pk packed_text_def not_space_ab)
  from w i0 pl ns have m: "map page_content ?ps = windows (page_content (packed_doc ! 0))"
    and o: "\<forall>k. Suc k < length ?ps \<longrightarrow>
              overlap_by 200 (page_content (?ps ! k)) (page_content (?ps ! Suc k))"
    by simp_all
  have wv: "windows (page_content (packed_doc ! 0))
       = [replicate 900 CHR ''a'' @ replicate 100 CHR ''b'',
          replicate 100 CHR ''a'' @ replicate 900 CHR ''b'']"
    by (simp only: pk windows_packed)
  from m wv have "length ?ps = 2" by (metis length_map length_Cons list.size(3) numeral_2_eq_2)
  then have "Suc 0 < length ?ps" by simp
  with o have ov: "overlap_by 200 (page_content (?ps ! 0)) (page_content (?ps ! 1))"
    by (metis One_nat_def)
  from m wv have mv: "map page_content ?ps
       = [replicate 900 CHR ''a'' @ replicate 100 CHR ''b'',
          replicate 100 CHR ''a'' @ replicate 900 CHR ''b'']" by simp
  from s long_doc_all_contents a l c pl mv wv ov show ?thesis by blast
qed

text \<open>
  Claim C6 as stated fails: the page of 1201 characters is split at its only space
  into two chunks of 600 characters that share no character, so that consecutive
  sub-chunks do not overlap by 200 characters.
\<close>

theorem no_fixed_overlap:
  "split_text lib_env = rcts_split_text
   \<and> length (page_content (long_doc ! 0)) = 1201
   \<and> map page_content (process_pages lib_env ''temp/long.pdf'' ''long'' (None, 0) long_doc ! 0)
       = [replicate 600 CHR ''a'', replicate 600 CHR ''b'']
   \<and> \<not> overlap_by 200 (replicate 600 CHR ''a'') (replicate 600 CHR ''b'')
   \<and> \<not> overlap_by 1 (replicate 600 CHR ''a'') (replicate 600 CHR ''b'')"
proof -
  have s: "split_text lib_env = rcts_split_text" by (simp add: lib_env_def)
  have l: "length (page_content (long_doc ! 0)) = 1201"
    by (simp add: long_doc_def long_text_def)
  have o: "\<not> overlap_by 200 (replicate 600 CHR ''a'') (replicate 600 CHR ''b'')"
    "\<not> overlap_by 1 (replicate 600 CHR ''a'') (replicate 600 CHR ''b'')"
    by (simp_all add: overlap_by_def)
  from s l long_doc_contents o show ?thesis by blast
qed

end
